theory Spec2Isabelle
  imports Main "HOL-Library.Word"
begin

section \<open>Python and library operations used by pdf2packet.py\<close>

text \<open>
  Exceptions the script can raise are values of \<open>error\<close>; a computation that can
  raise returns \<open>error + 'a\<close> with \<open>Inl\<close> for the exception.
\<close>

datatype error = KeyError | IndexError | UnicodeDecodeError | UnboundLocalError | SystemExit
  | NotImplementedError | UnidentifiedImageError | AttributeError

text \<open>\<^verbatim>\<open>s.startswith(p)\<close> on byte strings.\<close>

fun startswith :: "string \<Rightarrow> string \<Rightarrow> bool" where
  "startswith [] s = True"
| "startswith (p # ps) [] = False"
| "startswith (p # ps) (c # cs) = (p = c \<and> startswith ps cs)"

text \<open>\<^verbatim>\<open>sub in s\<close> on strings: \<open>sub\<close> occurs somewhere in \<open>s\<close>.\<close>

fun contains :: "string \<Rightarrow> string \<Rightarrow> bool" where
  "contains sub [] = (sub = [])"
| "contains sub (c # cs) = (startswith sub (c # cs) \<or> contains sub cs)"

text \<open>
  \<^verbatim>\<open>s.partition(sep)[2]\<close>: what follows the first occurrence of \<open>sep\<close> in \<open>s\<close>, and
  the empty string when \<open>sep\<close> does not occur. The script calls it with the non-empty
  literals \<^verbatim>\<open>":"\<close> and \<^verbatim>\<open>": "\<close> only (Python raises ValueError on an empty separator).
\<close>

fun partition2 :: "string \<Rightarrow> string \<Rightarrow> string" where
  "partition2 sep [] = []"
| "partition2 sep (c # cs) =
     (if startswith sep (c # cs) then drop (length sep) (c # cs) else partition2 sep cs)"

text \<open>\<^verbatim>\<open>b.decode('ascii')\<close>: a byte above 127 raises UnicodeDecodeError.\<close>

definition decode_ascii :: "string \<Rightarrow> error + string" where
  "decode_ascii b =
     (if list_all (\<lambda>c. (of_char c :: nat) < 128) b then Inr b else Inl UnicodeDecodeError)"

text \<open>
  One entry of the list returned by \<^verbatim>\<open>BarCodeReader.decode\<close>: a dictionary from key
  names to byte strings. The script reads the key \<^verbatim>\<open>'parsed'\<close> only.
\<close>

type_synonym result = "string \<rightharpoonup> string"

subsection \<open>extract_barcodes\<close>

text \<open>The body of the \<^verbatim>\<open>for r in results\<close> loop for a decoded payload.\<close>

definition barcode_step :: "string \<Rightarrow> string \<times> string \<Rightarrow> string \<times> string" where
  "barcode_step barcode st =
     (case st of (sep, race) \<Rightarrow>
        (let sep1 = (if contains ''RPSEQ:'' barcode then partition2 '':'' barcode else sep);
             race1 = (if contains ''RC:'' barcode then partition2 '': '' barcode else race)
         in (sep1, race1)))"

fun extract_loop :: "result list \<Rightarrow> string \<times> string \<Rightarrow> error + (string \<times> string)" where
  "extract_loop [] st = Inr st"
| "extract_loop (r # rs) st =
     (case r ''parsed'' of
        None \<Rightarrow> extract_loop rs st
      | Some b \<Rightarrow>
          (case decode_ascii b of
             Inl e \<Rightarrow> Inl e
           | Inr barcode \<Rightarrow> extract_loop rs (barcode_step barcode st)))"

definition extract_barcodes :: "result list \<Rightarrow> error + (string \<times> string)" where
  "extract_barcodes results = extract_loop results ([], [])"

section \<open>The document model\<close>

text \<open>
  The value of an image's \<^verbatim>\<open>/Filter\<close> entry: a single name, or an array of names.
  \<^verbatim>\<open>k in f\<close> is a substring test on a name and a membership test on an array.
\<close>

datatype pdf_filter = Name string | Array "string list"

fun filter_has :: "string \<Rightarrow> pdf_filter \<Rightarrow> bool" where
  "filter_has k (Name n) = contains k n"
| "filter_has k (Array ns) = List.member ns k"

text \<open>
  An entry of a page's \<^verbatim>\<open>/XObject\<close> dictionary, a stream. \<open>subtype\<close> is
  \<^verbatim>\<open>['/Subtype']\<close> and \<open>xfilter\<close> is \<^verbatim>\<open>['/Filter']\<close>, each \<open>None\<close> when the stream has
  no such key (the lookup then raises KeyError). \<open>stream_data\<close> is what \<^verbatim>\<open>getData()\<close>
  returns, and \<open>None\<close> when it raises, as PyPDF4 does with NotImplementedError for a
  filter it cannot decode.
\<close>

record xobject =
  subtype :: "string option"
  stream_data :: "string option"
  xfilter :: "pdf_filter option"

text \<open>
  A page. \<open>xobjects\<close> is \<^verbatim>\<open>page['/Resources']['/XObject'].getObject()\<close>, the named
  XObjects in the dictionary's order, and \<open>None\<close> when one of the two keys is missing
  (the lookup then raises KeyError). \<open>objects\<close> lists, by object number in the file, the
  objects that \<^verbatim>\<open>PdfFileWriter.write\<close> rewrites in place when it writes the page: the
  page dictionary and the objects reachable from it that hold a reference to another
  object of the file. Two pages share an object when a number is in both lists.
\<close>

record page =
  xobjects :: "(string \<times> xobject) list option"
  objects :: "nat list"

text \<open>
  The two external libraries. \<open>pil_open\<close> is
  \<^verbatim>\<open>Image.open(io.BytesIO(data)).convert('L')\<close>: the 8-bit grayscale raster of the image
  data, and \<open>None\<close> when PIL cannot identify the data (UnidentifiedImageError).
  \<open>zxing_decode\<close> is \<^verbatim>\<open>BarCodeReader.decode\<close> on the saved binarized image.
\<close>

type_synonym reader = "8 word list \<Rightarrow> result list"

record library =
  pil_open :: "string \<Rightarrow> 8 word list option"
  zxing_decode :: reader

text \<open>The parsed command line (the module-level \<^verbatim>\<open>args\<close>).\<close>

record args =
  filename :: string
  prefix :: string
  separator :: string
  keep_page :: bool
  keep_page_next :: bool
  brightness :: int
  verbose :: bool
  debug :: bool

text \<open>
  An instance of \<^verbatim>\<open>PdfQrSplit\<close>. \<open>input_pdf\<close> holds the pages of the file, which
  every reader opened on it yields; \<^verbatim>\<open>self.total_pages\<close> is its page count, set once
  in \<^verbatim>\<open>__init__\<close>.
\<close>

record PdfQrSplit =
  filepath :: string
  self_verbose :: bool
  self_debug :: bool
  self_brightness :: int
  input_pdf :: "page list"

definition total_pages :: "PdfQrSplit \<Rightarrow> nat" where
  "total_pages self = length (input_pdf self)"

section \<open>split_qr\<close>

text \<open>The lambda \<^verbatim>\<open>fn\<close> and the point transform of the grayscale image.\<close>

definition fn :: "int \<Rightarrow> 8 word \<Rightarrow> 8 word" where
  "fn b x = (if uint x > b then 255 else 0)"

definition binarize :: "int \<Rightarrow> 8 word list \<Rightarrow> 8 word list" where
  "binarize b img = map (fn b) img"

text \<open>
  The locals of \<^verbatim>\<open>split_qr\<close> that live across pages, and the reader held in
  \<^verbatim>\<open>self.input_pdf\<close>. \<open>reader_no\<close> counts how often the file has been reopened (line
  136) and so names the current \<^verbatim>\<open>PdfFileReader\<close>. A Python object read from the file
  is identified by the number of the reader it came from and its number in the file: a
  page object by \<open>(reader, page index)\<close>, another object by \<open>(reader, object number)\<close>.
  \<open>pdf_writer\<close> is the list of page objects added to the current \<^verbatim>\<open>PdfFileWriter\<close>.
  \<open>rewritten\<close> holds the objects that a write has rewritten in place: their references
  now point into the writer that wrote them. \<open>new_sep\<close> and \<open>new_race\<close> are \<open>None\<close>
  while the local is not yet bound. \<open>files\<close> logs every file written, in order, as its
  name and the indices of the pages it holds; opening the output file is assumed to
  succeed.
\<close>

record run_state =
  pdfs_count :: nat
  pdf_writer :: "(nat \<times> nat) list"
  last_label :: string
  last_race :: string
  new_sep :: "string option"
  new_race :: "string option"
  reader_no :: nat
  rewritten :: "(nat \<times> nat) list"
  files :: "(string \<times> nat list) list"

text \<open>
  Lines 89 to 115, for one entry of the XObject dictionary; the state is
  \<open>(split, new_sep, new_race)\<close>. The data of every image is fetched (line 91) before its
  filter is looked at (lines 93 to 95), and the image is opened (line 97) only under a
  supported filter.
\<close>

type_synonym scan = "bool \<times> string option \<times> string option"

definition image_step :: "library \<Rightarrow> int \<Rightarrow> xobject \<Rightarrow> scan \<Rightarrow> error + scan" where
  "image_step lib b x st =
     (case subtype x of
        None \<Rightarrow> Inl KeyError
      | Some t \<Rightarrow>
          if t = ''/Image'' then
            (case stream_data x of
               None \<Rightarrow> Inl NotImplementedError
             | Some data \<Rightarrow>
                 (case xfilter x of
                    None \<Rightarrow> Inl KeyError
                  | Some f \<Rightarrow>
                      if filter_has ''/FlateDecode'' f \<or> filter_has ''/DCTDecode'' f
                           \<or> filter_has ''/JPXDecode'' f
                      then
                        (case pil_open lib data of
                           None \<Rightarrow> Inl UnidentifiedImageError
                         | Some img \<Rightarrow>
                             (case extract_barcodes (zxing_decode lib (binarize b img)) of
                                Inl e \<Rightarrow> Inl e
                              | Inr (sep, race) \<Rightarrow>
                                  if sep \<noteq> [] then Inr (True, Some sep, Some race)
                                  else Inr st))
                      else Inr st))
          else Inr st)"

fun image_loop :: "library \<Rightarrow> int \<Rightarrow> xobject list \<Rightarrow> scan \<Rightarrow> error + scan" where
  "image_loop lib b [] st = Inr st"
| "image_loop lib b (x # xs) st =
     (case image_step lib b x st of Inl e \<Rightarrow> Inl e | Inr st1 \<Rightarrow> image_loop lib b xs st1)"

text \<open>The file name computed at lines 120 to 123 and 145 to 148.\<close>

definition output_name :: "string \<Rightarrow> string \<Rightarrow> string" where
  "output_name label race =
     (if race \<noteq> [] then label @ ''-'' @ race @ ''.pdf'' else label @ ''.pdf'')"

text \<open>
  The Python objects a write of the current writer goes through, and whether the write
  fails. \<^verbatim>\<open>PdfFileWriter.write\<close> replaces, in the objects it reaches, every reference
  into the reader by a reference into the writer; when it then meets a reference into
  another writer it raises AttributeError. So a write fails when the writer holds an
  object that an earlier write has rewritten.
\<close>

definition writer_objects :: "PdfQrSplit \<Rightarrow> run_state \<Rightarrow> (nat \<times> nat) list" where
  "writer_objects self s =
     concat (map (\<lambda>(r, i). map (\<lambda>n. (r, n)) (objects (input_pdf self ! i))) (pdf_writer s))"

definition write_fails :: "PdfQrSplit \<Rightarrow> run_state \<Rightarrow> bool" where
  "write_fails self s = list_ex (\<lambda>ob. List.member (rewritten s) ob) (writer_objects self s)"

text \<open>
  Lines 126 to 132 and 149 to 154: write the current document when it has pages. A write
  that succeeds is logged and marks the objects it went through as rewritten. A write
  that raises ends the run; the output file it had opened is not logged.
\<close>

definition flush :: "PdfQrSplit \<Rightarrow> string \<Rightarrow> run_state \<Rightarrow> error + run_state" where
  "flush self output s =
     (if length (pdf_writer s) > 0 then
        (if write_fails self s then Inl AttributeError
         else Inr (s\<lparr>files := files s @ [(output, map snd (pdf_writer s))],
                     rewritten := rewritten s @ writer_objects self s,
                     pdfs_count := pdfs_count s + 1\<rparr>))
      else Inr s)"

text \<open>
  Lines 117 to 139: the branch taken when the page is a separator. \<^verbatim>\<open>page\<close> is the
  object fetched at line 79 from the reader in use before the reopening at line 136, and
  it is this object that line 139 adds to the new writer.
\<close>

definition split_branch :: "args \<Rightarrow> PdfQrSplit \<Rightarrow> nat \<Rightarrow> run_state \<Rightarrow> error + run_state" where
  "split_branch a self current s =
     (let page = (reader_no s, current);
          s1 = (if keep_page a then s\<lparr>pdf_writer := pdf_writer s @ [page]\<rparr> else s);
          output = output_name (last_label s1) (last_race s1)
      in case new_sep s1 of
           None \<Rightarrow> Inl UnboundLocalError
         | Some ns \<Rightarrow>
             (case new_race s1 of
                None \<Rightarrow> Inl UnboundLocalError
              | Some nr \<Rightarrow>
                  (case flush self output (s1\<lparr>last_label := ns, last_race := nr\<rparr>) of
                     Inl e \<Rightarrow> Inl e
                   | Inr s3 \<Rightarrow>
                       (let s4 = s3\<lparr>pdf_writer := [], reader_no := reader_no s3 + 1\<rparr>
                        in Inr (if keep_page_next a
                                then s4\<lparr>pdf_writer := pdf_writer s4 @ [page]\<rparr>
                                else s4)))))"

text \<open>The body of the \<^verbatim>\<open>while\<close> loop for the page at index \<open>current\<close>.\<close>

definition page_step :: "library \<Rightarrow> args \<Rightarrow> PdfQrSplit \<Rightarrow> nat \<Rightarrow> run_state \<Rightarrow> error + run_state" where
  "page_step lib a self current s =
     (case xobjects (input_pdf self ! current) of
        None \<Rightarrow> Inl KeyError
      | Some xObject \<Rightarrow>
          (case image_loop lib (self_brightness self) (map snd xObject) (False, new_sep s, new_race s) of
             Inl e \<Rightarrow> Inl e
           | Inr (split, ns, nr) \<Rightarrow>
               (let s1 = s\<lparr>new_sep := ns, new_race := nr\<rparr>
                in if split then split_branch a self current s1
                   else Inr (s1\<lparr>pdf_writer := pdf_writer s1 @ [(reader_no s1, current)]\<rparr>))))"

text \<open>
  \<^verbatim>\<open>while current_page != self.total_pages\<close>; \<^verbatim>\<open>getPage\<close> raises IndexError beyond
  the last page.
\<close>

function while_loop :: "library \<Rightarrow> args \<Rightarrow> PdfQrSplit \<Rightarrow> nat \<Rightarrow> run_state \<Rightarrow> error + run_state" where
  "while_loop lib a self current s =
     (if current \<noteq> total_pages self then
        (if current < length (input_pdf self) then
           (case page_step lib a self current s of
              Inl e \<Rightarrow> Inl e
            | Inr s1 \<Rightarrow> while_loop lib a self (current + 1) s1)
         else Inl IndexError)
      else Inr s)"
  by pat_completeness auto
termination
  by (relation "measure (\<lambda>(lib, a, self, current, s). length (input_pdf self) - current)") auto

definition init_state :: run_state where
  "init_state = \<lparr>pdfs_count = 0, pdf_writer = [], last_label = ''999 Unknown'', last_race = [],
     new_sep = None, new_race = None, reader_no = 0, rewritten = [], files = []\<rparr>"

text \<open>
  Lines 145 to 156, after the loop: the last document is written when it has pages, and
  the count is returned; the files written are returned with it.
\<close>

definition finish :: "PdfQrSplit \<Rightarrow> run_state \<Rightarrow> error + (nat \<times> (string \<times> nat list) list)" where
  "finish self s =
     (case flush self (output_name (last_label s) (last_race s)) s of
        Inl e \<Rightarrow> Inl e
      | Inr s1 \<Rightarrow> Inr (pdfs_count s1, files s1))"

text \<open>\<^verbatim>\<open>split_qr(self, split_text, ifiles)\<close>.\<close>

definition split_qr ::
  "library \<Rightarrow> args \<Rightarrow> PdfQrSplit \<Rightarrow> string \<Rightarrow> nat \<Rightarrow> error + (nat \<times> (string \<times> nat list) list)" where
  "split_qr lib a self split_text ifiles =
     (case while_loop lib a self 0 init_state of
        Inl e \<Rightarrow> Inl e
      | Inr s \<Rightarrow> finish self s)"

section \<open>The module level\<close>

text \<open>Lines 161 to 167: debug implies verbose, and the brightness is clamped.\<close>

definition adjust_args :: "args \<Rightarrow> args" where
  "adjust_args a =
     (let a1 = (if debug a then a\<lparr>verbose := True\<rparr> else a);
          a2 = (if brightness a1 < 0 then a1\<lparr>brightness := 0\<rparr> else a1)
      in if brightness a2 > 255 then a2\<lparr>brightness := 255\<rparr> else a2)"

text \<open>
  The loop over the files found by \<^verbatim>\<open>glob\<close>, each given as its path and its pages; the
  state is \<open>(ifiles, ofiles)\<close> and the files written so far.
\<close>

fun files_loop ::
  "library \<Rightarrow> args \<Rightarrow> (string \<times> page list) list \<Rightarrow> nat \<times> nat \<times> (string \<times> nat list) list
     \<Rightarrow> error + (nat \<times> nat \<times> (string \<times> nat list) list)" where
  "files_loop lib a [] st = Inr st"
| "files_loop lib a ((fp, pdf) # rest) (ifiles, ofiles, out) =
     (let splitter = \<lparr>filepath = fp, self_verbose = verbose a, self_debug = debug a,
                       self_brightness = brightness a, input_pdf = pdf\<rparr>
      in case split_qr lib a splitter (separator a) ifiles of
           Inl e \<Rightarrow> Inl e
         | Inr (n, fs) \<Rightarrow> files_loop lib a rest (ifiles + 1, ofiles + n, out @ fs))"

definition main ::
  "library \<Rightarrow> args \<Rightarrow> (string \<times> page list) list \<Rightarrow> error + (nat \<times> nat \<times> (string \<times> nat list) list)" where
  "main lib args0 filepaths =
     (let a = adjust_args args0
      in if filepaths = [] then Inl SystemExit else files_loop lib a filepaths (0, 0, []))"

section \<open>The page classifier and the split engine of the specification\<close>

text \<open>
  What lines 81 to 115 compute for one page when no label is bound yet: \<open>None\<close> for a
  page that is not a separator, and the label and secondary id read for a separator.
\<close>

type_synonym mark = "(string \<times> string) option"

definition classify :: "library \<Rightarrow> int \<Rightarrow> page \<Rightarrow> error + mark" where
  "classify lib b pg =
     (case xobjects pg of
        None \<Rightarrow> Inl KeyError
      | Some xObject \<Rightarrow>
          (case image_loop lib b (map snd xObject) (False, None, None) of
             Inl e \<Rightarrow> Inl e
           | Inr (split, ns, nr) \<Rightarrow>
               if split then
                 (case ns of
                    None \<Rightarrow> Inl UnboundLocalError
                  | Some sep \<Rightarrow>
                      (case nr of
                         None \<Rightarrow> Inl UnboundLocalError
                       | Some race \<Rightarrow> Inr (Some (sep, race))))
               else Inr None))"

fun classify_all :: "library \<Rightarrow> int \<Rightarrow> page list \<Rightarrow> error + mark list" where
  "classify_all lib b [] = Inr []"
| "classify_all lib b (p # ps) =
     (case classify lib b p of
        Inl e \<Rightarrow> Inl e
      | Inr m \<Rightarrow> (case classify_all lib b ps of Inl e \<Rightarrow> Inl e | Inr ms \<Rightarrow> Inr (m # ms)))"

text \<open>
  The split engine in the words of the specification (sections 3 and 4.3). Every
  separator and the end of input close the document in progress. \<open>closed_docs\<close> lists
  the documents closed, in order, the empty ones included; the document closed at the
  k-th boundary is named from the pending pair, which is the sentinel for the first
  boundary and the pair decoded at the separator before for the others; a closed document
  is written when it has pages.
\<close>

definition spec_name :: "string \<times> string \<Rightarrow> string" where
  "spec_name p = (case p of (label, sid) \<Rightarrow> label @ (if sid = [] then [] else ''-'' @ sid) @ ''.pdf'')"

fun separators :: "mark list \<Rightarrow> (string \<times> string) list" where
  "separators [] = []"
| "separators (None # ms) = separators ms"
| "separators (Some m # ms) = m # separators ms"

fun closed_docs :: "bool \<Rightarrow> bool \<Rightarrow> (nat \<times> mark) list \<Rightarrow> nat list \<Rightarrow> nat list list" where
  "closed_docs kp kpn [] doc = [doc]"
| "closed_docs kp kpn ((i, None) # ms) doc = closed_docs kp kpn ms (doc @ [i])"
| "closed_docs kp kpn ((i, Some m) # ms) doc =
     (if kp then doc @ [i] else doc) # closed_docs kp kpn ms (if kpn then [i] else [])"

definition flushed ::
  "bool \<Rightarrow> bool \<Rightarrow> string \<times> string \<Rightarrow> nat list \<Rightarrow> (nat \<times> mark) list \<Rightarrow> (string \<times> nat list) list" where
  "flushed kp kpn pending doc ims =
     filter (\<lambda>f. snd f \<noteq> [])
       (zip (map spec_name (pending # separators (map snd ims))) (closed_docs kp kpn ims doc))"

definition one_step_behind :: "bool \<Rightarrow> bool \<Rightarrow> mark list \<Rightarrow> (string \<times> nat list) list" where
  "one_step_behind kp kpn ms = flushed kp kpn (''999 Unknown'', []) [] (zip [0..<length ms] ms)"

section \<open>An invariant of the page loop\<close>

text \<open>
  While every page object in the writer comes from the current reader and every object
  rewritten so far comes from an earlier one, a write succeeds.
\<close>

definition fresh :: "run_state \<Rightarrow> bool" where
  "fresh s = (list_all (\<lambda>ob. fst ob = reader_no s) (pdf_writer s)
              \<and> list_all (\<lambda>ob. fst ob < reader_no s) (rewritten s))"

section \<open>Example documents\<close>

text \<open>
  Libraries given by tables: from image data to rasters, and from binarized rasters to
  the payloads decoded from them. An image XObject with a single filter name, the default
  command line, and a few pages, each with the number of its page object: without
  XObjects, with an image in a filter the script does not support, without an
  \<^verbatim>\<open>/XObject\<close> entry, and with labelled images.
\<close>

definition table_library ::
  "(string \<times> 8 word list) list \<Rightarrow> (8 word list \<times> string list) list \<Rightarrow> library" where
  "table_library imgs tbl =
     \<lparr>pil_open = map_of imgs,
      zxing_decode = (\<lambda>img. case map_of tbl img of
                               None \<Rightarrow> []
                             | Some bs \<Rightarrow> map (\<lambda>b. [''parsed'' \<mapsto> b]) bs)\<rparr>"

definition rasters :: "(string \<times> 8 word list) list" where
  "rasters = [(''black'', [0]), (''white'', [255]), (''both'', [0, 255]), (''mid'', [100, 200])]"

definition image :: "string \<Rightarrow> string \<Rightarrow> xobject" where
  "image f d = \<lparr>subtype = Some ''/Image'', stream_data = Some d, xfilter = Some (Name f)\<rparr>"

definition args0 :: args where
  "args0 = \<lparr>filename = ''scan.pdf'', prefix = ''split'', separator = ''RPSEQ:'',
     keep_page = False, keep_page_next = False, brightness = 128, verbose = False, debug = False\<rparr>"

definition splitter :: "page list \<Rightarrow> PdfQrSplit" where
  "splitter pages = \<lparr>filepath = ''scan.pdf'', self_verbose = False, self_debug = False,
     self_brightness = 128, input_pdf = pages\<rparr>"

definition blank_page :: "nat \<Rightarrow> page" where
  "blank_page n = \<lparr>xobjects = Some [], objects = [n]\<rparr>"

definition fax_page :: "nat \<Rightarrow> page" where
  "fax_page n = \<lparr>xobjects = Some [(''/Im0'', image ''/CCITTFaxDecode'' ''black'')], objects = [n]\<rparr>"

definition text_page :: "nat \<Rightarrow> page" where
  "text_page n = \<lparr>xobjects = None, objects = [n]\<rparr>"

definition label_page :: "nat \<Rightarrow> page" where
  "label_page n = \<lparr>xobjects = Some [(''/Im0'', image ''/DCTDecode'' ''black'')], objects = [n]\<rparr>"

definition two_image_page :: "nat \<Rightarrow> page" where
  "two_image_page n = \<lparr>xobjects = Some [(''/Im0'', image ''/DCTDecode'' ''black''),
                                         (''/Im1'', image ''/DCTDecode'' ''white'')],
                        objects = [n]\<rparr>"

definition one_image_page :: "nat \<Rightarrow> page" where
  "one_image_page n = \<lparr>xobjects = Some [(''/Im0'', image ''/DCTDecode'' ''both'')], objects = [n]\<rparr>"

definition mid_page :: "nat \<Rightarrow> page" where
  "mid_page n = \<lparr>xobjects = Some [(''/Im0'', image ''/DCTDecode'' ''mid'')], objects = [n]\<rparr>"

definition event_reader :: library where
  "event_reader = table_library rasters
     [([0], [''RPSEQ:EVENT1'']), ([255], [''RC: 100'']),
      ([0, 255], [''RPSEQ:EVENT1'', ''RC: 100''])]"

definition custom_reader :: library where
  "custom_reader = table_library rasters [([0], [''SPLIT:A''])]"

section \<open>Unfolding the page loop\<close>

declare while_loop.simps [simp del]

lemma while_loop_end:
  "current = total_pages self \<Longrightarrow> while_loop lib a self current s = Inr s"
  by (subst while_loop.simps) simp

lemma while_loop_Inl:
  "current < length (input_pdf self) \<Longrightarrow> page_step lib a self current s = Inl e \<Longrightarrow>
   while_loop lib a self current s = Inl e"
  by (subst while_loop.simps) (simp add: total_pages_def)

lemma while_loop_Inr:
  "current < length (input_pdf self) \<Longrightarrow> page_step lib a self current s = Inr s1 \<Longrightarrow>
   while_loop lib a self current s = while_loop lib a self (Suc current) s1"
  by (subst while_loop.simps) (simp add: total_pages_def)

lemma while_loop_beyond:
  "length (input_pdf self) < current \<Longrightarrow> while_loop lib a self current s = Inl IndexError"
  by (subst while_loop.simps) (simp add: total_pages_def)

section \<open>Options the split does not read\<close>

lemma split_branch_args_cong:
  assumes "keep_page a = keep_page a'" and "keep_page_next a = keep_page_next a'"
  shows "split_branch a self c s = split_branch a' self c s"
  unfolding split_branch_def assms ..

lemma page_step_args_cong:
  assumes "keep_page a = keep_page a'" and "keep_page_next a = keep_page_next a'"
  shows "page_step lib a self c s = page_step lib a' self c s"
  unfolding page_step_def split_branch_args_cong [OF assms] ..

lemma while_loop_args_cong:
  assumes "keep_page a = keep_page a'" and "keep_page_next a = keep_page_next a'"
  shows "while_loop lib a self c s = while_loop lib a' self c s"
proof (induction "length (input_pdf self) - c" arbitrary: c s)
  case 0
  then have "c = total_pages self \<or> length (input_pdf self) < c"
    by (auto simp add: total_pages_def)
  then show ?case
    by (auto simp add: while_loop_end while_loop_beyond)
next
  case (Suc k)
  then have lt: "c < length (input_pdf self)" by simp
  show ?case
  proof (cases "page_step lib a self c s")
    case (Inl e)
    then have "page_step lib a' self c s = Inl e"
      by (simp add: page_step_args_cong [OF assms])
    with Inl lt show ?thesis by (simp add: while_loop_Inl)
  next
    case (Inr s1)
    then have r: "page_step lib a' self c s = Inr s1"
      by (simp add: page_step_args_cong [OF assms])
    have "while_loop lib a self (Suc c) s1 = while_loop lib a' self (Suc c) s1"
      using Suc.hyps(2) by (intro Suc.hyps(1)) simp
    then show ?thesis
      by (simp add: while_loop_Inr [OF lt Inr] while_loop_Inr [OF lt r])
  qed
qed

lemma split_qr_args_cong:
  assumes "keep_page a = keep_page a'" and "keep_page_next a = keep_page_next a'"
  shows "split_qr lib a self t i = split_qr lib a' self t' i'"
  unfolding split_qr_def while_loop_args_cong [OF assms] ..

lemma files_loop_args_cong:
  assumes "keep_page a = keep_page a'" and "keep_page_next a = keep_page_next a'"
    and "verbose a = verbose a'" and "debug a = debug a'" and "brightness a = brightness a'"
  shows "files_loop lib a fps st = files_loop lib a' fps st"
proof (induction fps arbitrary: st)
  case Nil
  show ?case by simp
next
  case (Cons f fps)
  obtain fp pdf where f: "f = (fp, pdf)" by (cases f)
  obtain ifiles ofiles out where st: "st = (ifiles, ofiles, out)" by (cases st)
  have eq: "split_qr lib a self (separator a) ifiles = split_qr lib a' self (separator a') ifiles"
    for self
    by (rule split_qr_args_cong [OF assms(1,2)])
  show ?case
    unfolding f st files_loop.simps assms(3,4,5) eq
    by (simp add: Cons.IH split: sum.split prod.split)
qed

text \<open>
  C10: output file names never depend on the \<^verbatim>\<open>--prefix\<close> option. Two runs that differ
  only in the value of \<open>prefix\<close> give the same result: the same error, or the same counts
  and the same files written, with the same names and pages.
\<close>

theorem prefix_unused:
  "main lib (a\<lparr>prefix := p\<rparr>) fps = main lib (a\<lparr>prefix := q\<rparr>) fps"
proof -
  have "files_loop lib (adjust_args (a\<lparr>prefix := p\<rparr>)) fps (0, 0, [])
        = files_loop lib (adjust_args (a\<lparr>prefix := q\<rparr>)) fps (0, 0, [])"
    by (rule files_loop_args_cong) (simp_all add: adjust_args_def Let_def)
  then show ?thesis by (simp add: main_def Let_def)
qed

section \<open>The page loop and the classification of pages\<close>

lemma image_step_from:
  "image_step lib b x st =
     (case image_step lib b x (False, None, None) of
        Inl e \<Rightarrow> Inl e
      | Inr (sp, ns, nr) \<Rightarrow> if sp then Inr (True, ns, nr) else Inr st)"
  by (simp add: image_step_def Let_def split: option.split sum.split prod.split)

lemma image_step_shape:
  "image_step lib b x (False, None, None) = Inr (sp, ns, nr) \<Longrightarrow>
   (if sp then (\<exists>l r. ns = Some l \<and> nr = Some r \<and> l \<noteq> []) else ns = None \<and> nr = None)"
  by (auto simp add: image_step_def Let_def split: option.splits sum.splits prod.splits if_splits)

lemma image_loop_True:
  "image_loop lib b xs (True, Some l, Some r) = Inr (sp, ns, nr) \<Longrightarrow>
   sp \<and> (\<exists>l' r'. ns = Some l' \<and> nr = Some r' )"
proof (induction xs arbitrary: l r)
  case Nil
  then show ?case by auto
next
  case (Cons x xs)
  show ?case
  proof (cases "image_step lib b x (False, None, None)")
    case (Inl e)
    then have "image_step lib b x (True, Some l, Some r) = Inl e"
      by (subst image_step_from) simp
    with Cons.prems show ?thesis by simp
  next
    case (Inr t)
    obtain sp1 ns1 nr1 where t: "t = (sp1, ns1, nr1)" by (cases t)
    from image_step_shape [OF Inr [unfolded t]]
    consider l1 r1 where "sp1" "ns1 = Some l1" "nr1 = Some r1" | "\<not> sp1" "ns1 = None" "nr1 = None"
      by (auto split: if_splits)
    then show ?thesis
    proof cases
      case 1
      then have "image_step lib b x (True, Some l, Some r) = Inr (True, Some l1, Some r1)"
        using Inr t by (subst image_step_from) simp
      with Cons.prems have "image_loop lib b xs (True, Some l1, Some r1) = Inr (sp, ns, nr)"
        by simp
      then show ?thesis by (rule Cons.IH)
    next
      case 2
      then have "image_step lib b x (True, Some l, Some r) = Inr (True, Some l, Some r)"
        using Inr t by (subst image_step_from) simp
      with Cons.prems have "image_loop lib b xs (True, Some l, Some r) = Inr (sp, ns, nr)"
        by simp
      then show ?thesis by (rule Cons.IH)
    qed
  qed
qed

lemma image_loop_from:
  "image_loop lib b xs (False, ns0, nr0) =
     (case image_loop lib b xs (False, None, None) of
        Inl e \<Rightarrow> Inl e
      | Inr (sp, ns, nr) \<Rightarrow> if sp then Inr (True, ns, nr) else Inr (False, ns0, nr0))"
proof (induction xs)
  case Nil
  show ?case by simp
next
  case (Cons x xs)
  show ?case
  proof (cases "image_step lib b x (False, None, None)")
    case (Inl e)
    then have "image_step lib b x (False, ns0, nr0) = Inl e"
      by (subst image_step_from) simp
    with Inl show ?thesis by simp
  next
    case (Inr t)
    obtain sp1 ns1 nr1 where t: "t = (sp1, ns1, nr1)" by (cases t)
    from image_step_shape [OF Inr [unfolded t]]
    consider l1 r1 where "sp1" "ns1 = Some l1" "nr1 = Some r1" | "\<not> sp1" "ns1 = None" "nr1 = None"
      by (auto split: if_splits)
    then show ?thesis
    proof cases
      case 1
      then have st: "image_step lib b x (False, ns0, nr0) = Inr (True, Some l1, Some r1)"
        using Inr t by (subst image_step_from) simp
      have st0: "image_step lib b x (False, None, None) = Inr (True, Some l1, Some r1)"
        using Inr t 1 by simp
      show ?thesis
      proof (cases "image_loop lib b xs (True, Some l1, Some r1)")
        case (Inl e)
        then show ?thesis by (simp add: st st0)
      next
        case (Inr u)
        obtain sp2 ns2 nr2 where u: "u = (sp2, ns2, nr2)" by (cases u)
        from image_loop_True [OF Inr [unfolded u]] have "sp2" by simp
        then show ?thesis by (simp add: st st0 Inr u)
      qed
    next
      case 2
      then have st: "image_step lib b x (False, ns0, nr0) = Inr (False, ns0, nr0)"
        using Inr t by (subst image_step_from) simp
      have st0: "image_step lib b x (False, None, None) = Inr (False, None, None)"
        using Inr t 2 by simp
      show ?thesis by (simp add: st st0 Cons.IH)
    qed
  qed
qed

lemma image_loop_shape:
  "image_loop lib b xs (False, None, None) = Inr (sp, ns, nr) \<Longrightarrow>
   (if sp then (\<exists>l r. ns = Some l \<and> nr = Some r) else ns = None \<and> nr = None)"
proof (induction xs)
  case Nil
  then show ?case by simp
next
  case (Cons x xs)
  show ?case
  proof (cases "image_step lib b x (False, None, None)")
    case (Inl e)
    with Cons.prems show ?thesis by simp
  next
    case (Inr t)
    obtain sp1 ns1 nr1 where t: "t = (sp1, ns1, nr1)" by (cases t)
    from image_step_shape [OF Inr [unfolded t]]
    consider l1 r1 where "sp1" "ns1 = Some l1" "nr1 = Some r1" | "\<not> sp1" "ns1 = None" "nr1 = None"
      by (auto split: if_splits)
    then show ?thesis
    proof cases
      case 1
      with Cons.prems Inr t have "image_loop lib b xs (True, Some l1, Some r1) = Inr (sp, ns, nr)"
        by simp
      from image_loop_True [OF this] show ?thesis by auto
    next
      case 2
      with Cons.prems Inr t have "image_loop lib b xs (False, None, None) = Inr (sp, ns, nr)"
        by simp
      then show ?thesis by (rule Cons.IH)
    qed
  qed
qed

lemma extract_loop_error: "extract_loop rs st = Inl e \<Longrightarrow> e = UnicodeDecodeError"
  by (induction rs arbitrary: st)
     (auto simp add: decode_ascii_def split: option.splits sum.splits if_splits)

lemma image_step_error:
  "image_step lib b x st = Inl e \<Longrightarrow>
   e = KeyError \<or> e = UnicodeDecodeError \<or> e = NotImplementedError \<or> e = UnidentifiedImageError"
  by (auto simp add: image_step_def extract_barcodes_def Let_def dest: extract_loop_error
      split: option.splits sum.splits if_splits prod.splits)

lemma image_loop_error:
  "image_loop lib b xs st = Inl e \<Longrightarrow>
   e = KeyError \<or> e = UnicodeDecodeError \<or> e = NotImplementedError \<or> e = UnidentifiedImageError"
  by (induction xs arbitrary: st) (auto dest: image_step_error split: sum.splits)

lemma classify_never_unbound: "classify lib b pg \<noteq> Inl UnboundLocalError"
proof (cases "xobjects pg")
  case None
  then show ?thesis by (simp add: classify_def)
next
  case (Some xObject)
  show ?thesis
  proof (cases "image_loop lib b (map snd xObject) (False, None, None)")
    case (Inl e)
    from image_loop_error [OF Inl] show ?thesis by (auto simp add: classify_def Some Inl)
  next
    case (Inr t)
    obtain sp ns nr where t: "t = (sp, ns, nr)" by (cases t)
    from image_loop_shape [OF Inr [unfolded t]] show ?thesis
      by (auto simp add: classify_def Some Inr t)
  qed
qed

lemma page_step_error:
  assumes "classify lib (self_brightness self) (input_pdf self ! c) = Inl e"
  shows "page_step lib a self c s = Inl e"
proof (cases "xobjects (input_pdf self ! c)")
  case None
  with assms show ?thesis by (simp add: classify_def page_step_def)
next
  case (Some xObject)
  show ?thesis
  proof (cases "image_loop lib (self_brightness self) (map snd xObject) (False, None, None)")
    case (Inl e')
    with assms Some have "e' = e" by (simp add: classify_def)
    then show ?thesis
      unfolding page_step_def by (subst image_loop_from) (simp add: Some Inl)
  next
    case (Inr t)
    obtain sp ns nr where t: "t = (sp, ns, nr)" by (cases t)
    from image_loop_shape [OF Inr [unfolded t]] assms Some Inr t show ?thesis
      by (auto simp add: classify_def split: if_splits)
  qed
qed

lemma page_step_plain:
  assumes "classify lib (self_brightness self) (input_pdf self ! c) = Inr None"
  shows "page_step lib a self c s = Inr (s\<lparr>pdf_writer := pdf_writer s @ [(reader_no s, c)]\<rparr>)"
proof (cases "xobjects (input_pdf self ! c)")
  case None
  with assms show ?thesis by (simp add: classify_def)
next
  case (Some xObject)
  show ?thesis
  proof (cases "image_loop lib (self_brightness self) (map snd xObject) (False, None, None)")
    case (Inl e')
    with assms Some show ?thesis by (simp add: classify_def)
  next
    case (Inr t)
    obtain sp ns nr where t: "t = (sp, ns, nr)" by (cases t)
    from image_loop_shape [OF Inr [unfolded t]] assms Some Inr t have "\<not> sp"
      by (auto simp add: classify_def split: if_splits)
    then show ?thesis
      unfolding page_step_def by (subst image_loop_from) (simp add: Some Inr t)
  qed
qed

lemma page_step_separator:
  assumes "classify lib (self_brightness self) (input_pdf self ! c) = Inr (Some (l, r))"
  shows "page_step lib a self c s
           = split_branch a self c (s\<lparr>new_sep := Some l, new_race := Some r\<rparr>)"
proof (cases "xobjects (input_pdf self ! c)")
  case None
  with assms show ?thesis by (simp add: classify_def)
next
  case (Some xObject)
  show ?thesis
  proof (cases "image_loop lib (self_brightness self) (map snd xObject) (False, None, None)")
    case (Inl e')
    with assms Some show ?thesis by (simp add: classify_def)
  next
    case (Inr t)
    obtain sp ns nr where t: "t = (sp, ns, nr)" by (cases t)
    from image_loop_shape [OF Inr [unfolded t]] assms Some Inr t
    have sp: "sp" and ns: "ns = Some l" and nr: "nr = Some r"
      by (auto simp add: classify_def split: if_splits)
    show ?thesis
      unfolding page_step_def by (subst image_loop_from) (simp add: Some Inr t sp ns nr)
  qed
qed

text \<open>The page loop's body is decided by the classification of the page.\<close>

lemma page_step_classify:
  "page_step lib a self c s =
     (case classify lib (self_brightness self) (input_pdf self ! c) of
        Inl e \<Rightarrow> Inl e
      | Inr None \<Rightarrow> Inr (s\<lparr>pdf_writer := pdf_writer s @ [(reader_no s, c)]\<rparr>)
      | Inr (Some (l, r)) \<Rightarrow>
          split_branch a self c (s\<lparr>new_sep := Some l, new_race := Some r\<rparr>))"
proof (cases "classify lib (self_brightness self) (input_pdf self ! c)")
  case (Inl e)
  then show ?thesis by (simp add: page_step_error)
next
  case (Inr m)
  show ?thesis
  proof (cases m)
    case None
    with Inr show ?thesis by (simp add: page_step_plain)
  next
    case (Some lr)
    obtain l r where "lr = (l, r)" by (cases lr)
    with Inr Some show ?thesis by (simp add: page_step_separator)
  qed
qed

section \<open>The page loop refines the split engine\<close>

lemma spec_name_output_name: "spec_name (l, r) = output_name l r"
  by (simp add: spec_name_def output_name_def)

lemma flushed_plain:
  "flushed kp kpn pending doc ((i, None) # ims) = flushed kp kpn pending (doc @ [i]) ims"
  by (simp add: flushed_def)

lemma flushed_separator:
  "flushed kp kpn pending doc ((i, Some m) # ims) =
     filter (\<lambda>f. snd f \<noteq> []) [(spec_name pending, if kp then doc @ [i] else doc)]
     @ flushed kp kpn m (if kpn then [i] else []) ims"
  by (simp add: flushed_def)

lemma zip_upt_Cons:
  "zip [c..<Suc (c + n)] (m # ms) = (c, m) # zip [Suc c..<Suc (c + n)] ms"
  by (simp add: upt_conv_Cons del: upt_Suc)

text \<open>What a write that succeeds leaves behind.\<close>

lemma flush_Inr:
  assumes "flush self output s = Inr s1"
  shows "last_label s1 = last_label s" and "last_race s1 = last_race s"
    and "pdf_writer s1 = pdf_writer s" and "reader_no s1 = reader_no s"
    and "new_sep s1 = new_sep s" and "new_race s1 = new_race s"
    and "files s1 = files s @ filter (\<lambda>f. snd f \<noteq> []) [(output, map snd (pdf_writer s))]"
    and "pdfs_count s1 = pdfs_count s
           + length (filter (\<lambda>f. snd f \<noteq> []) [(output, map snd (pdf_writer s))])"
  using assms by (auto simp add: flush_def split: if_splits)

lemma finish_Inr:
  assumes "finish self s = Inr (n, fs)"
  shows "n = pdfs_count s
            + length (flushed kp kpn (last_label s, last_race s) (map snd (pdf_writer s)) [])"
    and "fs = files s @ flushed kp kpn (last_label s, last_race s) (map snd (pdf_writer s)) []"
proof -
  from assms obtain s1 where f: "flush self (output_name (last_label s) (last_race s)) s = Inr s1"
    and n: "n = pdfs_count s1" and fs: "fs = files s1"
    by (auto simp add: finish_def split: sum.splits)
  show "n = pdfs_count s
            + length (flushed kp kpn (last_label s, last_race s) (map snd (pdf_writer s)) [])"
    by (simp add: n flush_Inr(8) [OF f] flushed_def spec_name_output_name)
  show "fs = files s @ flushed kp kpn (last_label s, last_race s) (map snd (pdf_writer s)) []"
    by (simp add: fs flush_Inr(7) [OF f] flushed_def spec_name_output_name)
qed

lemma split_branch_Inr:
  assumes "split_branch a self c s = Inr s1"
    and "new_sep s = Some l" and "new_race s = Some r"
  shows "last_label s1 = l" and "last_race s1 = r"
    and "map snd (pdf_writer s1) = (if keep_page_next a then [c] else [])"
    and "files s1 = files s @ filter (\<lambda>f. snd f \<noteq> [])
          [(output_name (last_label s) (last_race s),
            if keep_page a then map snd (pdf_writer s) @ [c] else map snd (pdf_writer s))]"
    and "pdfs_count s1 = pdfs_count s + length (filter (\<lambda>f. snd f \<noteq> [])
          [(output_name (last_label s) (last_race s),
            if keep_page a then map snd (pdf_writer s) @ [c] else map snd (pdf_writer s))])"
proof -
  let ?s1 = "if keep_page a then s\<lparr>pdf_writer := pdf_writer s @ [(reader_no s, c)]\<rparr> else s"
  let ?out = "output_name (last_label s) (last_race s)"
  from assms obtain s3 where f: "flush self ?out (?s1\<lparr>last_label := l, last_race := r\<rparr>) = Inr s3"
    and s1: "s1 = (if keep_page_next a
                   then s3\<lparr>pdf_writer := [(reader_no s, c)], reader_no := reader_no s3 + 1\<rparr>
                   else s3\<lparr>pdf_writer := [], reader_no := reader_no s3 + 1\<rparr>)"
    by (auto simp add: split_branch_def Let_def split: sum.splits if_splits)
  note F = flush_Inr [OF f]
  show "last_label s1 = l" by (simp add: s1 F)
  show "last_race s1 = r" by (simp add: s1 F)
  show "map snd (pdf_writer s1) = (if keep_page_next a then [c] else [])" by (simp add: s1)
  show "files s1 = files s @ filter (\<lambda>f. snd f \<noteq> [])
          [(output_name (last_label s) (last_race s),
            if keep_page a then map snd (pdf_writer s) @ [c] else map snd (pdf_writer s))]"
    by (simp add: s1 F)
  show "pdfs_count s1 = pdfs_count s + length (filter (\<lambda>f. snd f \<noteq> [])
          [(output_name (last_label s) (last_race s),
            if keep_page a then map snd (pdf_writer s) @ [c] else map snd (pdf_writer s))])"
    by (simp add: s1 F)
qed

text \<open>A run that returns has classified every page, and wrote what the engine writes.\<close>

lemma while_loop_returns:
  assumes "drop c (input_pdf self) = ps" and "c \<le> length (input_pdf self)"
    and "while_loop lib a self c s = Inr s1" and "finish self s1 = Inr (n, fs)"
  shows "\<exists>ms. classify_all lib (self_brightness self) ps = Inr ms
     \<and> n = pdfs_count s + length (flushed (keep_page a) (keep_page_next a)
               (last_label s, last_race s) (map snd (pdf_writer s)) (zip [c..<c + length ms] ms))
     \<and> fs = files s @ flushed (keep_page a) (keep_page_next a)
               (last_label s, last_race s) (map snd (pdf_writer s)) (zip [c..<c + length ms] ms)"
  using assms
proof (induction ps arbitrary: c s)
  case Nil
  then have "c = total_pages self" by (simp add: total_pages_def)
  with Nil.prems(3) have "s1 = s" by (simp add: while_loop_end)
  with finish_Inr [OF Nil.prems(4), of "keep_page a" "keep_page_next a"] show ?case by simp
next
  case (Cons p ps)
  from Cons.prems have lt: "c < length (input_pdf self)"
    by (cases "c < length (input_pdf self)") simp_all
  from Cons.prems have p: "input_pdf self ! c = p"
    by (metis nth_via_drop)
  from Cons.prems lt have rest: "drop (Suc c) (input_pdf self) = ps"
    by (metis Cons_nth_drop_Suc list.inject)
  from lt have le: "Suc c \<le> length (input_pdf self)" by simp
  obtain s2 where st: "page_step lib a self c s = Inr s2"
    and wl: "while_loop lib a self (Suc c) s2 = Inr s1"
  proof (cases "page_step lib a self c s")
    case (Inl e)
    with Cons.prems(3) lt show ?thesis by (simp add: while_loop_Inl)
  next
    case (Inr s2)
    with Cons.prems(3) lt that show ?thesis by (simp add: while_loop_Inr)
  qed
  from Cons.IH [OF rest le wl Cons.prems(4)]
  obtain ms where ms: "classify_all lib (self_brightness self) ps = Inr ms"
    and n: "n = pdfs_count s2 + length (flushed (keep_page a) (keep_page_next a)
               (last_label s2, last_race s2) (map snd (pdf_writer s2))
               (zip [Suc c..<Suc c + length ms] ms))"
    and fs: "fs = files s2 @ flushed (keep_page a) (keep_page_next a)
               (last_label s2, last_race s2) (map snd (pdf_writer s2))
               (zip [Suc c..<Suc c + length ms] ms)"
    by blast
  show ?case
  proof (cases "classify lib (self_brightness self) p")
    case (Inl e)
    with st p show ?thesis by (simp add: page_step_classify)
  next
    case (Inr m)
    show ?thesis
    proof (cases m)
      case None
      with st p Inr have s2: "s2 = s\<lparr>pdf_writer := pdf_writer s @ [(reader_no s, c)]\<rparr>"
        by (simp add: page_step_classify)
      show ?thesis
        by (rule exI [of _ "m # ms"])
           (simp add: Inr None ms n fs s2 zip_upt_Cons flushed_plain del: upt_Suc)
    next
      case (Some lr)
      obtain l r where lr: "lr = (l, r)" by (cases lr)
      from st p Inr Some lr
      have sb: "split_branch a self c (s\<lparr>new_sep := Some l, new_race := Some r\<rparr>) = Inr s2"
        by (simp add: page_step_classify)
      note S = split_branch_Inr [OF sb, of l r, simplified]
      show ?thesis
        by (rule exI [of _ "m # ms"])
           (simp add: Inr Some lr ms n fs S zip_upt_Cons flushed_separator
              spec_name_output_name del: upt_Suc)
    qed
  qed
qed

lemma split_qr_Inr:
  assumes "split_qr lib a self split_text ifiles = Inr (n, fs)"
  shows "\<exists>ms. classify_all lib (self_brightness self) (input_pdf self) = Inr ms
     \<and> n = length fs \<and> fs = one_step_behind (keep_page a) (keep_page_next a) ms"
proof -
  from assms obtain s1 where wl: "while_loop lib a self 0 init_state = Inr s1"
    and f: "finish self s1 = Inr (n, fs)"
    by (auto simp add: split_qr_def split: sum.splits)
  from while_loop_returns [OF _ _ wl f, of "input_pdf self"]
  obtain ms where "classify_all lib (self_brightness self) (input_pdf self) = Inr ms"
    and "n = length (one_step_behind (keep_page a) (keep_page_next a) ms)"
    and "fs = one_step_behind (keep_page a) (keep_page_next a) ms"
    by (auto simp add: init_state_def one_step_behind_def)
  then show ?thesis by simp
qed


lemma fresh_write:
  assumes "fresh s"
  shows "\<not> write_fails self s"
proof
  assume "write_fails self s"
  then obtain ob where w: "ob \<in> set (writer_objects self s)" and r: "ob \<in> set (rewritten s)"
    by (auto simp add: write_fails_def list_ex_iff)
  from w assms have "fst ob = reader_no s"
    by (auto simp add: writer_objects_def fresh_def list_all_iff)
  moreover from r assms have "fst ob < reader_no s"
    by (auto simp add: fresh_def list_all_iff)
  ultimately show False by simp
qed

lemma fresh_writer_objects:
  "fresh s \<Longrightarrow> ob \<in> set (writer_objects self s) \<Longrightarrow> fst ob = reader_no s"
  by (auto simp add: writer_objects_def fresh_def list_all_iff)

lemma fresh_flush:
  assumes "fresh s"
  shows "\<exists>s1. flush self output s = Inr s1
     \<and> list_all (\<lambda>ob. fst ob < Suc (reader_no s)) (rewritten s1)
     \<and> reader_no s1 = reader_no s"
proof (cases "length (pdf_writer s) > 0")
  case True
  have "list_all (\<lambda>ob. fst ob < Suc (reader_no s)) (rewritten s @ writer_objects self s)"
    using assms fresh_writer_objects [OF assms, of _ self]
    by (auto simp add: fresh_def list_all_iff)
  with True fresh_write [OF assms, of self] show ?thesis
    by (simp add: flush_def)
next
  case False
  with assms show ?thesis
    by (auto simp add: flush_def fresh_def list_all_iff)
qed

lemma fresh_finish: "fresh s \<Longrightarrow> \<exists>r. finish self s = Inr r"
  using fresh_flush [of s self "output_name (last_label s) (last_race s)"]
  by (auto simp add: finish_def)

lemma fresh_plain: "fresh s \<Longrightarrow> fresh (s\<lparr>pdf_writer := pdf_writer s @ [(reader_no s, c)]\<rparr>)"
  by (simp add: fresh_def)

lemma fresh_split_branch:
  assumes "fresh s" and "\<not> keep_page_next a"
  shows "\<exists>s1. split_branch a self c (s\<lparr>new_sep := Some l, new_race := Some r\<rparr>) = Inr s1
           \<and> fresh s1"
proof -
  define s2 where "s2 = (if keep_page a
      then s\<lparr>new_sep := Some l, new_race := Some r,
              pdf_writer := pdf_writer s @ [(reader_no s, c)], last_label := l, last_race := r\<rparr>
      else s\<lparr>new_sep := Some l, new_race := Some r, last_label := l, last_race := r\<rparr>)"
  have f2: "fresh s2" using assms(1) by (simp add: fresh_def s2_def)
  have rn2: "reader_no s2 = reader_no s" by (simp add: s2_def)
  from fresh_flush [OF f2, of self "output_name (last_label s) (last_race s)"]
  obtain s3 where fl: "flush self (output_name (last_label s) (last_race s)) s2 = Inr s3"
    and rw: "list_all (\<lambda>ob. fst ob < Suc (reader_no s2)) (rewritten s3)"
    and rn: "reader_no s3 = reader_no s2"
    by blast
  have "split_branch a self c (s\<lparr>new_sep := Some l, new_race := Some r\<rparr>)
      = Inr (s3\<lparr>pdf_writer := [], reader_no := reader_no s3 + 1\<rparr>)"
  proof (cases "keep_page a")
    case True
    with fl assms(2) show ?thesis by (simp add: split_branch_def Let_def s2_def)
  next
    case False
    with fl assms(2) show ?thesis by (simp add: split_branch_def Let_def s2_def)
  qed
  moreover have "fresh (s3\<lparr>pdf_writer := [], reader_no := reader_no s3 + 1\<rparr>)"
    using rw rn by (simp add: fresh_def)
  ultimately show ?thesis by blast
qed

lemma while_loop_succeeds:
  assumes "drop c (input_pdf self) = ps" and "c \<le> length (input_pdf self)"
    and "classify_all lib (self_brightness self) ps = Inr ms"
    and "keep_page_next a \<longrightarrow> separators ms = []"
    and "fresh s"
  shows "\<exists>s1 r. while_loop lib a self c s = Inr s1 \<and> finish self s1 = Inr r"
  using assms
proof (induction ps arbitrary: c s ms)
  case Nil
  then have "c = total_pages self" by (simp add: total_pages_def)
  with fresh_finish [OF Nil.prems(5), of self] show ?case by (simp add: while_loop_end)
next
  case (Cons p ps)
  from Cons.prems have lt: "c < length (input_pdf self)"
    by (cases "c < length (input_pdf self)") simp_all
  from Cons.prems have p: "input_pdf self ! c = p"
    by (metis nth_via_drop)
  from Cons.prems lt have rest: "drop (Suc c) (input_pdf self) = ps"
    by (metis Cons_nth_drop_Suc list.inject)
  from lt have le: "Suc c \<le> length (input_pdf self)" by simp
  from Cons.prems(3) obtain m ms' where m: "classify lib (self_brightness self) p = Inr m"
    and ms': "classify_all lib (self_brightness self) ps = Inr ms'" and ms: "ms = m # ms'"
    by (auto split: sum.splits)
  have "\<exists>s2. page_step lib a self c s = Inr s2 \<and> fresh s2
          \<and> (keep_page_next a \<longrightarrow> separators ms' = [])"
  proof (cases m)
    case None
    with m p Cons.prems(4,5) ms show ?thesis
      by (simp add: page_step_classify fresh_plain)
  next
    case (Some lr)
    obtain l r where lr: "lr = (l, r)" by (cases lr)
    from Cons.prems(4) ms Some have nk: "\<not> keep_page_next a" by auto
    from fresh_split_branch [OF Cons.prems(5) nk, where self = self and c = c and l = l and r = r]
      m p Some lr nk
    show ?thesis by (simp add: page_step_classify)
  qed
  then obtain s2 where st: "page_step lib a self c s = Inr s2" and f2: "fresh s2"
    and k2: "keep_page_next a \<longrightarrow> separators ms' = []"
    by blast
  from Cons.IH [OF rest le ms' k2 f2] show ?case
    by (simp add: while_loop_Inr [OF lt st])
qed

lemma split_qr_succeeds:
  assumes "classify_all lib (self_brightness self) (input_pdf self) = Inr ms"
    and "keep_page_next a \<longrightarrow> separators ms = []"
  shows "split_qr lib a self split_text ifiles
           = Inr (length (one_step_behind (keep_page a) (keep_page_next a) ms),
                  one_step_behind (keep_page a) (keep_page_next a) ms)"
proof -
  have "fresh init_state" by (simp add: fresh_def init_state_def)
  from while_loop_succeeds [OF _ _ assms this, of 0]
  obtain s1 r where "while_loop lib a self 0 init_state = Inr s1" and "finish self s1 = Inr r"
    by auto
  then have "split_qr lib a self split_text ifiles = Inr r"
    by (simp add: split_qr_def)
  moreover obtain n fs where "r = (n, fs)" by (cases r)
  ultimately have "split_qr lib a self split_text ifiles = Inr (n, fs)" by simp
  from split_qr_Inr [OF this] assms(1) this show ?thesis by auto
qed

section \<open>Properties of the split engine\<close>

lemma length_closed_docs:
  "length (closed_docs kp kpn ims doc) = Suc (length (separators (map snd ims)))"
  by (induction kp kpn ims doc rule: closed_docs.induct) simp_all

lemma map_snd_filter_zip:
  "length xs = length ys \<Longrightarrow>
   map snd (filter (\<lambda>f. P (snd f)) (zip xs ys)) = filter P ys"
  by (induction xs ys rule: list_induct2) simp_all

lemma map_snd_flushed:
  "map snd (flushed kp kpn pending doc ims) = filter (\<lambda>d. d \<noteq> []) (closed_docs kp kpn ims doc)"
  unfolding flushed_def
  by (rule map_snd_filter_zip) (simp add: length_closed_docs)

lemma flushed_nonempty: "f \<in> set (flushed kp kpn pending doc ims) \<Longrightarrow> snd f \<noteq> []"
  by (simp add: flushed_def)

lemma classify_all_plain:
  "\<forall>p\<in>set ps. classify lib b p = Inr None \<Longrightarrow>
   classify_all lib b ps = Inr (replicate (length ps) None)"
  by (induction ps) simp_all

lemma separators_replicate_None: "separators (replicate n None) = []"
  by (induction n) simp_all

lemma closed_docs_plain:
  "closed_docs kp kpn (zip [c..<c + n] (replicate n None)) doc = [doc @ [c..<c + n]]"
proof (induction n arbitrary: c doc)
  case 0
  show ?case by simp
next
  case (Suc n)
  have "closed_docs kp kpn (zip [c..<Suc (c + n)] (None # replicate n None)) doc
        = closed_docs kp kpn (zip [Suc c..<Suc c + n] (replicate n None)) (doc @ [c])"
    by (simp add: zip_upt_Cons del: upt_Suc)
  also have "\<dots> = [(doc @ [c]) @ [Suc c..<Suc c + n]]"
    by (rule Suc.IH)
  also have "\<dots> = [doc @ [c..<c + Suc n]]"
    by (simp add: upt_conv_Cons del: upt_Suc)
  finally show ?case by simp
qed

lemma one_step_behind_plain:
  "one_step_behind kp kpn (replicate n None) =
     (if n = 0 then [] else [(''999 Unknown.pdf'', [0..<n])])"
proof -
  have cd: "closed_docs kp kpn (zip [0..<n] (replicate n None)) [] = [[0..<n]]"
    using closed_docs_plain [of kp kpn 0 n "[]"] by simp
  have sp: "separators (map snd (zip [0..<n] (replicate n None))) = []"
    by (simp add: separators_replicate_None)
  have nm: "spec_name (''999 Unknown'', []) = ''999 Unknown.pdf''"
    by (simp add: spec_name_def)
  show ?thesis
    unfolding one_step_behind_def flushed_def length_replicate cd sp by (simp add: nm)
qed

lemma closed_docs_hd:
  "\<exists>ext ds. closed_docs kp kpn ims doc = (doc @ ext) # ds"
proof (induction kp kpn ims doc rule: closed_docs.induct)
  case (1 kp kpn doc)
  show ?case by simp
next
  case (2 kp kpn i ms doc)
  then obtain ext ds where "closed_docs kp kpn ms (doc @ [i]) = ((doc @ [i]) @ ext) # ds"
    by blast
  then have "closed_docs kp kpn ((i, None) # ms) doc = (doc @ ([i] @ ext)) # ds"
    by simp
  then show ?case by blast
next
  case (3 kp kpn i m ms doc)
  have "closed_docs kp kpn ((i, Some m) # ms) doc
        = (doc @ (if kp then [i] else [])) # closed_docs kp kpn ms (if kpn then [i] else [])"
    by simp
  then show ?case by blast
qed



lemma separators_zip_upt: "separators (map snd (zip [c..<c + length ms] ms)) = separators ms"
  by (simp add: map_snd_zip)

lemma both_kept_docs:
  assumes "(k, Some m) \<in> set ims"
  shows "\<exists>pre d1 d2 post. closed_docs True True ims doc = pre @ (d1 @ [k]) # (k # d2) # post"
  using assms
proof (induction ims arbitrary: doc)
  case Nil
  then show ?case by simp
next
  case (Cons im ims)
  obtain i mk where im: "im = (i, mk)" by (cases im)
  show ?case
  proof (cases mk)
    case None
    with Cons.prems im have "(k, Some m) \<in> set ims" by simp
    from Cons.IH [OF this, of "doc @ [i]"] show ?thesis
      by (simp add: im None)
  next
    case (Some m')
    show ?thesis
    proof (cases "(k, Some m) \<in> set ims")
      case True
      from Cons.IH [OF True, of "[i]"]
      obtain pre d1 d2 post where "closed_docs True True ims [i] = pre @ (d1 @ [k]) # (k # d2) # post"
        by blast
      then have "closed_docs True True (im # ims) doc
          = ((doc @ [i]) # pre) @ (d1 @ [k]) # (k # d2) # post"
        by (simp add: im Some)
      then show ?thesis by blast
    next
      case False
      with Cons.prems im Some have ik: "i = k" by simp
      obtain ext ds where "closed_docs True True ims [k] = ([k] @ ext) # ds"
        using closed_docs_hd [of True True ims "[k]"] by blast
      then have "closed_docs True True (im # ims) doc = [] @ (doc @ [k]) # (k # ext) # ds"
        by (simp add: im Some ik)
      then show ?thesis by blast
    qed
  qed
qed

lemma both_kept_nonempty:
  "doc \<noteq> [] \<or> ims \<noteq> [] \<Longrightarrow> d \<in> set (closed_docs True True ims doc) \<Longrightarrow> d \<noteq> []"
proof (induction ims arbitrary: doc)
  case Nil
  then show ?case by simp
next
  case (Cons im ims)
  obtain i mk where im: "im = (i, mk)" by (cases im)
  show ?case
  proof (cases mk)
    case None
    with Cons.prems im have "d \<in> set (closed_docs True True ims (doc @ [i]))" by simp
    then show ?thesis by (intro Cons.IH [of "doc @ [i]"]) simp_all
  next
    case (Some m')
    with Cons.prems im have "d = doc @ [i] \<or> d \<in> set (closed_docs True True ims [i])" by simp
    then show ?thesis
    proof
      assume "d = doc @ [i]" then show ?thesis by simp
    next
      assume "d \<in> set (closed_docs True True ims [i])"
      then show ?thesis by (intro Cons.IH [of "[i]"]) simp_all
    qed
  qed
qed

lemma neither_kept_docs:
  "d \<in> set (closed_docs False False ims doc) \<Longrightarrow> k \<in> set d \<Longrightarrow>
   k \<in> set doc \<or> (k, None) \<in> set ims"
proof (induction ims arbitrary: doc)
  case Nil
  then show ?case by simp
next
  case (Cons im ims)
  obtain i mk where im: "im = (i, mk)" by (cases im)
  show ?case
  proof (cases mk)
    case None
    with Cons.prems im have "d \<in> set (closed_docs False False ims (doc @ [i]))" by simp
    from Cons.IH [OF this Cons.prems(2)] show ?thesis by (auto simp add: im None)
  next
    case (Some m')
    with Cons.prems im have "d = doc \<or> d \<in> set (closed_docs False False ims [])" by simp
    then show ?thesis
    proof
      assume "d = doc" with Cons.prems(2) show ?thesis by simp
    next
      assume "d \<in> set (closed_docs False False ims [])"
      from Cons.IH [OF this Cons.prems(2)] show ?thesis by simp
    qed
  qed
qed

lemma zip_upt_mark:
  "(k, x) \<in> set (zip [0..<length ms] ms) \<Longrightarrow> k < length ms \<and> ms ! k = x"
  by (auto simp add: in_set_zip)

lemma mark_in_zip_upt:
  "k < length ms \<Longrightarrow> (k, ms ! k) \<in> set (zip [0..<length ms] ms)"
  by (auto simp add: in_set_zip intro!: exI [of _ k])

lemma split_qr_empty:
  "input_pdf self = [] \<Longrightarrow> split_qr lib a self split_text ifiles = Inr (0, [])"
  using split_qr_succeeds [of lib self "[]" a split_text ifiles]
  by (simp add: one_step_behind_def flushed_def)

lemma split_qr_plain:
  assumes "input_pdf self \<noteq> []"
    and "\<forall>p\<in>set (input_pdf self). classify lib (self_brightness self) p = Inr None"
  shows "split_qr lib a self split_text ifiles
           = Inr (1, [(''999 Unknown.pdf'', [0..<length (input_pdf self)])])"
proof -
  have "classify_all lib (self_brightness self) (input_pdf self)
      = Inr (replicate (length (input_pdf self)) None)"
    using assms(2) by (simp add: classify_all_plain)
  from split_qr_succeeds [OF this, of a split_text ifiles] assms(1) show ?thesis
    by (simp add: separators_replicate_None one_step_behind_plain)
qed

section \<open>Counting and naming the files written\<close>

text \<open>
  C2: \<^verbatim>\<open>split_qr\<close> returns the number of output documents flushed. A source document
  without pages flushes nothing and returns 0. A source document with at least one page
  whose pages are all classified as not a separator flushes exactly one document, holding
  all the pages and named with the initial label, and returns 1. In general the count
  returned is the number of files written, no file written is empty, and the files
  written hold exactly the non-empty documents among those closed at the separators and
  at the end of input, in order.
\<close>

theorem split_qr_count:
  "(input_pdf self = [] \<longrightarrow> split_qr lib a self split_text ifiles = Inr (0, []))
   \<and> (input_pdf self \<noteq> []
        \<and> (\<forall>p\<in>set (input_pdf self). classify lib (self_brightness self) p = Inr None) \<longrightarrow>
      split_qr lib a self split_text ifiles =
        Inr (1, [(output_name (last_label init_state) (last_race init_state),
                  [0..<length (input_pdf self)])]))
   \<and> (\<forall>n fs. split_qr lib a self split_text ifiles = Inr (n, fs) \<longrightarrow>
        n = length fs \<and> (\<forall>f\<in>set fs. snd f \<noteq> [])
        \<and> (\<exists>ms. classify_all lib (self_brightness self) (input_pdf self) = Inr ms
              \<and> map snd fs = filter (\<lambda>d. d \<noteq> [])
                   (closed_docs (keep_page a) (keep_page_next a) (zip [0..<length ms] ms) [])))"
proof (intro conjI impI allI)
  assume "input_pdf self = []"
  then show "split_qr lib a self split_text ifiles = Inr (0, [])"
    by (rule split_qr_empty)
next
  assume h: "input_pdf self \<noteq> []
    \<and> (\<forall>p\<in>set (input_pdf self). classify lib (self_brightness self) p = Inr None)"
  have nm: "output_name (last_label init_state) (last_race init_state) = ''999 Unknown.pdf''"
    by (simp add: init_state_def output_name_def)
  from h show "split_qr lib a self split_text ifiles =
        Inr (1, [(output_name (last_label init_state) (last_race init_state),
                  [0..<length (input_pdf self)])])"
    unfolding nm by (intro split_qr_plain) simp_all
next
  fix n fs
  assume r: "split_qr lib a self split_text ifiles = Inr (n, fs)"
  from split_qr_Inr [OF r]
  obtain ms where ms: "classify_all lib (self_brightness self) (input_pdf self) = Inr ms"
    and n: "n = length fs"
    and fs: "fs = one_step_behind (keep_page a) (keep_page_next a) ms"
    by (elim exE conjE)
  show "n = length fs" by (rule n)
  show "\<forall>f\<in>set fs. snd f \<noteq> []"
    using fs by (auto simp add: one_step_behind_def dest: flushed_nonempty)
  show "\<exists>ms. classify_all lib (self_brightness self) (input_pdf self) = Inr ms
              \<and> map snd fs = filter (\<lambda>d. d \<noteq> [])
                   (closed_docs (keep_page a) (keep_page_next a) (zip [0..<length ms] ms) [])"
    using ms fs by (simp add: one_step_behind_def map_snd_flushed)
qed

theorem split_qr_count_witness:
  "split_qr event_reader args0 (splitter []) ''RPSEQ:'' 0 = Inr (0, [])
   \<and> split_qr event_reader args0 (splitter [fax_page 1, blank_page 2]) ''RPSEQ:'' 0
       = Inr (1, [(''999 Unknown.pdf'', [0, 1])])
   \<and> split_qr event_reader args0 (splitter [label_page 1, fax_page 2, label_page 3]) ''RPSEQ:'' 0
       = Inr (1, [(''EVENT1.pdf'', [1])])
   \<and> (\<exists>ms. classify_all event_reader
              (self_brightness (splitter [label_page 1, fax_page 2, label_page 3]))
              (input_pdf (splitter [label_page 1, fax_page 2, label_page 3])) = Inr ms
          \<and> map snd [(''EVENT1.pdf'', [1::nat])] = filter (\<lambda>d. d \<noteq> [])
               (closed_docs (keep_page args0) (keep_page_next args0)
                  (zip [0..<length ms] ms) []))"
proof -
  have e: "input_pdf (splitter []) = []"
    by (simp add: splitter_def)
  have p: "input_pdf (splitter [fax_page 1, blank_page 2]) \<noteq> []
     \<and> (\<forall>p\<in>set (input_pdf (splitter [fax_page 1, blank_page 2])).
           classify event_reader (self_brightness (splitter [fax_page 1, blank_page 2])) p = Inr None)"
    by code_simp
  have r: "split_qr event_reader args0 (splitter [label_page 1, fax_page 2, label_page 3]) ''RPSEQ:'' 0
       = Inr (1, [(''EVENT1.pdf'', [1])])"
    by code_simp
  have 1: "split_qr event_reader args0 (splitter []) ''RPSEQ:'' 0 = Inr (0, [])"
    using split_qr_count [of "splitter []" event_reader args0 "''RPSEQ:''" 0,
        THEN conjunct1, THEN mp, OF e] .
  have 2: "split_qr event_reader args0 (splitter [fax_page 1, blank_page 2]) ''RPSEQ:'' 0
       = Inr (1, [(''999 Unknown.pdf'', [0, 1])])"
    using split_qr_count [of "splitter [fax_page 1, blank_page 2]" event_reader args0 "''RPSEQ:''" 0,
        THEN conjunct2, THEN conjunct1, THEN mp, OF p]
    by (simp add: init_state_def output_name_def splitter_def)
  have 3: "\<exists>ms. classify_all event_reader
              (self_brightness (splitter [label_page 1, fax_page 2, label_page 3]))
              (input_pdf (splitter [label_page 1, fax_page 2, label_page 3])) = Inr ms
          \<and> map snd [(''EVENT1.pdf'', [1::nat])] = filter (\<lambda>d. d \<noteq> [])
               (closed_docs (keep_page args0) (keep_page_next args0)
                  (zip [0..<length ms] ms) [])"
    using split_qr_count [of "splitter [label_page 1, fax_page 2, label_page 3]" event_reader args0
        "''RPSEQ:''" 0, THEN conjunct2, THEN conjunct2, THEN spec, THEN spec, THEN mp, OF r,
        THEN conjunct2, THEN conjunct2] .
  from 1 2 r 3 show ?thesis by (intro conjI)
qed

text \<open>
  C7: a source document with at least one page and no separator page produces exactly one
  output file, named \<^verbatim>\<open>999 Unknown.pdf\<close>: the initial label is the string
  \<^verbatim>\<open>999 Unknown\<close> and the initial secondary id is empty, so the name has no \<^verbatim>\<open>-\<close>.
\<close>

theorem no_separator_one_file:
  assumes "input_pdf self \<noteq> []"
    and "\<forall>p\<in>set (input_pdf self). classify lib (self_brightness self) p = Inr None"
  shows "split_qr lib a self split_text ifiles
           = Inr (1, [(''999 Unknown.pdf'', [0..<length (input_pdf self)])])
         \<and> last_label init_state = ''999 Unknown'' \<and> last_race init_state = []
         \<and> CHR ''-'' \<notin> set ''999 Unknown.pdf''"
  using split_qr_plain [OF assms] by (simp add: init_state_def)

theorem no_separator_one_file_witness:
  "input_pdf (splitter [fax_page 1, blank_page 2, fax_page 3]) \<noteq> []
   \<and> classify event_reader 128 (fax_page 1) = Inr None
   \<and> classify event_reader 128 (blank_page 2) = Inr None
   \<and> classify event_reader 128 (fax_page 3) = Inr None
   \<and> split_qr event_reader args0 (splitter [fax_page 1, blank_page 2, fax_page 3]) ''RPSEQ:'' 0
       = Inr (1, [(''999 Unknown.pdf'', [0, 1, 2])])"
proof -
  have ne: "input_pdf (splitter [fax_page 1, blank_page 2, fax_page 3]) \<noteq> []"
    by (simp add: splitter_def)
  have pl: "\<forall>p\<in>set (input_pdf (splitter [fax_page 1, blank_page 2, fax_page 3])).
      classify event_reader (self_brightness (splitter [fax_page 1, blank_page 2, fax_page 3])) p
        = Inr None"
    by code_simp
  have b: "self_brightness (splitter [fax_page 1, blank_page 2, fax_page 3]) = 128"
    by (simp add: splitter_def)
  have "split_qr event_reader args0 (splitter [fax_page 1, blank_page 2, fax_page 3]) ''RPSEQ:'' 0
       = Inr (1, [(''999 Unknown.pdf'', [0, 1, 2])])"
    using no_separator_one_file [OF ne pl, of args0 "''RPSEQ:''" 0, THEN conjunct1]
    by (simp add: splitter_def upt_rec)
  moreover have "classify event_reader 128 (fax_page 1) = Inr None
      \<and> classify event_reader 128 (blank_page 2) = Inr None
      \<and> classify event_reader 128 (fax_page 3) = Inr None"
    using pl by (simp add: splitter_def)
  ultimately show ?thesis using ne by simp
qed




section \<open>Keeping the separator page\<close>

text \<open>With the label bound, the separator branch can only fail in the write.\<close>

lemma split_branch_Inl:
  "split_branch a self c (s\<lparr>new_sep := Some l, new_race := Some r\<rparr>) = Inl e \<Longrightarrow>
   e = AttributeError"
  by (auto simp add: split_branch_def flush_def Let_def split: sum.splits if_splits)

lemma in_writer_objects:
  "ob \<in> set (writer_objects self s) \<longleftrightarrow>
     (\<exists>i. (fst ob, i) \<in> set (pdf_writer s) \<and> snd ob \<in> set (objects (input_pdf self ! i)))"
proof
  assume "ob \<in> set (writer_objects self s)"
  then obtain h where h: "h \<in> set (pdf_writer s)"
    and ob: "ob \<in> set (map (\<lambda>n. (fst h, n)) (objects (input_pdf self ! snd h)))"
    by (auto simp add: writer_objects_def)
  from ob have "fst ob = fst h" and "snd ob \<in> set (objects (input_pdf self ! snd h))"
    by auto
  with h show "\<exists>i. (fst ob, i) \<in> set (pdf_writer s) \<and> snd ob \<in> set (objects (input_pdf self ! i))"
    by (intro exI [of _ "snd h"]) simp
next
  assume "\<exists>i. (fst ob, i) \<in> set (pdf_writer s) \<and> snd ob \<in> set (objects (input_pdf self ! i))"
  then obtain i where "(fst ob, i) \<in> set (pdf_writer s)"
    and "snd ob \<in> set (objects (input_pdf self ! i))"
    by blast
  then have "ob \<in> (\<lambda>n. (fst ob, n)) ` set (objects (input_pdf self ! i))"
    by (metis image_eqI prod.collapse)
  with \<open>(fst ob, i) \<in> set (pdf_writer s)\<close> show "ob \<in> set (writer_objects self s)"
    by (force simp add: writer_objects_def)
qed

lemma write_fails_iff:
  "write_fails self s \<longleftrightarrow>
     (\<exists>ob. ob \<in> set (writer_objects self s) \<and> ob \<in> set (rewritten s))"
  by (auto simp add: write_fails_def list_ex_iff)

lemma write_fails_nonempty: "write_fails self s \<Longrightarrow> pdf_writer s \<noteq> []"
  by (auto simp add: write_fails_iff in_writer_objects)

lemma write_fails_flush: "write_fails self s \<Longrightarrow> flush self output s = Inl AttributeError"
  using write_fails_nonempty [of self s] by (simp add: flush_def)

lemma write_fails_append:
  "write_fails self s \<Longrightarrow> write_fails self (s\<lparr>pdf_writer := pdf_writer s @ [ob]\<rparr>)"
  by (auto simp add: write_fails_iff in_writer_objects)

lemma write_fails_split_branch:
  assumes "write_fails self s"
  shows "split_branch a self c (s\<lparr>new_sep := Some l, new_race := Some r\<rparr>) = Inl AttributeError"
proof (cases "keep_page a")
  case True
  have "write_fails self (s\<lparr>new_sep := Some l, new_race := Some r,
      pdf_writer := pdf_writer s @ [(reader_no s, c)], last_label := l, last_race := r\<rparr>)"
    using assms by (auto simp add: write_fails_iff in_writer_objects)
  from write_fails_flush [OF this] True show ?thesis
    by (simp add: split_branch_def Let_def)
next
  case False
  have "write_fails self (s\<lparr>new_sep := Some l, new_race := Some r,
      last_label := l, last_race := r\<rparr>)"
    using assms by (auto simp add: write_fails_iff in_writer_objects)
  from write_fails_flush [OF this] False show ?thesis
    by (simp add: split_branch_def Let_def)
qed

text \<open>
  Once the writer holds an object that an earlier write has rewritten, the run ends with
  AttributeError at the next write, if the pages in between are classified without error.
\<close>

lemma while_loop_doomed:
  assumes "drop c (input_pdf self) = ps" and "c \<le> length (input_pdf self)"
    and "classify_all lib (self_brightness self) ps = Inr ms"
    and "write_fails self s"
  shows "(case while_loop lib a self c s of Inl e \<Rightarrow> Inl e | Inr s1 \<Rightarrow> finish self s1)
           = Inl AttributeError"
  using assms
proof (induction ps arbitrary: c s ms)
  case Nil
  then have "c = total_pages self" by (simp add: total_pages_def)
  with write_fails_flush [OF Nil.prems(4)] show ?case
    by (simp add: while_loop_end finish_def)
next
  case (Cons p ps)
  from Cons.prems have lt: "c < length (input_pdf self)"
    by (cases "c < length (input_pdf self)") simp_all
  from Cons.prems have p: "input_pdf self ! c = p"
    by (metis nth_via_drop)
  from Cons.prems lt have rest: "drop (Suc c) (input_pdf self) = ps"
    by (metis Cons_nth_drop_Suc list.inject)
  from lt have le: "Suc c \<le> length (input_pdf self)" by simp
  from Cons.prems(3) obtain m ms' where m: "classify lib (self_brightness self) p = Inr m"
    and ms': "classify_all lib (self_brightness self) ps = Inr ms'"
    by (auto split: sum.splits)
  show ?case
  proof (cases m)
    case None
    with m p have st: "page_step lib a self c s
        = Inr (s\<lparr>pdf_writer := pdf_writer s @ [(reader_no s, c)]\<rparr>)"
      by (simp add: page_step_classify)
    from Cons.IH [OF rest le ms' write_fails_append [OF Cons.prems(4)]] show ?thesis
      by (simp add: while_loop_Inr [OF lt st])
  next
    case (Some lr)
    obtain l r where lr: "lr = (l, r)" by (cases lr)
    from m p Some lr write_fails_split_branch [OF Cons.prems(4)]
    have "page_step lib a self c s = Inl AttributeError"
      by (simp add: page_step_classify)
    then show ?thesis by (simp add: while_loop_Inl [OF lt])
  qed
qed

text \<open>
  With both flags, a separator page that was written is in the next writer again, which
  then holds rewritten objects.
\<close>

lemma both_kept_write_fails:
  assumes "keep_page a" and "keep_page_next a"
    and "objects (input_pdf self ! c) \<noteq> []"
    and "split_branch a self c (s\<lparr>new_sep := Some l, new_race := Some r\<rparr>) = Inr s1"
  shows "write_fails self s1"
proof -
  let ?s2 = "s\<lparr>new_sep := Some l, new_race := Some r,
                pdf_writer := pdf_writer s @ [(reader_no s, c)], last_label := l, last_race := r\<rparr>"
  from assms(1,2,4) obtain s3 where fl: "flush self (output_name (last_label s) (last_race s)) ?s2 = Inr s3"
    and s1: "s1 = s3\<lparr>pdf_writer := [(reader_no s, c)], reader_no := reader_no s3 + 1\<rparr>"
    by (auto simp add: split_branch_def Let_def split: sum.splits)
  from fl have rw: "rewritten s3 = rewritten ?s2 @ writer_objects self ?s2"
    by (auto simp add: flush_def split: if_splits)
  from assms(3) obtain n where n: "n \<in> set (objects (input_pdf self ! c))"
    by (cases "objects (input_pdf self ! c)") auto
  then have "(reader_no s, n) \<in> set (writer_objects self ?s2)"
    by (auto simp add: in_writer_objects)
  with rw have "(reader_no s, n) \<in> set (rewritten s1)" by (simp add: s1)
  moreover from n have "(reader_no s, n) \<in> set (writer_objects self s1)"
    by (auto simp add: in_writer_objects s1)
  ultimately show ?thesis
    by (auto simp add: write_fails_iff)
qed

lemma both_kept_raises:
  assumes "keep_page a" and "keep_page_next a"
    and "drop c (input_pdf self) = ps" and "c \<le> length (input_pdf self)"
    and "classify_all lib (self_brightness self) ps = Inr ms"
    and "j < length ms" and "ms ! j = Some m" and "objects (input_pdf self ! (c + j)) \<noteq> []"
  shows "(case while_loop lib a self c s of Inl e \<Rightarrow> Inl e | Inr s1 \<Rightarrow> finish self s1)
           = Inl AttributeError"
  using assms(3-8)
proof (induction ps arbitrary: c s ms j)
  case Nil
  then show ?case by simp
next
  case (Cons p ps)
  from Cons.prems have lt: "c < length (input_pdf self)"
    by (cases "c < length (input_pdf self)") simp_all
  from Cons.prems have p: "input_pdf self ! c = p"
    by (metis nth_via_drop)
  from Cons.prems lt have rest: "drop (Suc c) (input_pdf self) = ps"
    by (metis Cons_nth_drop_Suc list.inject)
  from lt have le: "Suc c \<le> length (input_pdf self)" by simp
  from Cons.prems(3) obtain m0 ms' where m0: "classify lib (self_brightness self) p = Inr m0"
    and ms': "classify_all lib (self_brightness self) ps = Inr ms'" and ms: "ms = m0 # ms'"
    by (auto split: sum.splits)
  have later: "(case while_loop lib a self (Suc c) s2 of Inl e \<Rightarrow> Inl e
                | Inr s1 \<Rightarrow> finish self s1) = Inl AttributeError"
    if "j \<noteq> 0" for s2
  proof -
    from that obtain j' where j': "j = Suc j'" by (cases j) auto
    with Cons.prems(4,5,6) ms have "j' < length ms'" "ms' ! j' = Some m"
      "objects (input_pdf self ! (Suc c + j')) \<noteq> []"
      by simp_all
    from Cons.IH [OF rest le ms' this] show ?thesis .
  qed
  show ?case
  proof (cases m0)
    case None
    with Cons.prems(5) ms have "j \<noteq> 0" by (cases j) auto
    from None m0 p have st: "page_step lib a self c s
        = Inr (s\<lparr>pdf_writer := pdf_writer s @ [(reader_no s, c)]\<rparr>)"
      by (simp add: page_step_classify)
    from later [OF \<open>j \<noteq> 0\<close>] show ?thesis
      by (simp add: while_loop_Inr [OF lt st])
  next
    case (Some lr)
    obtain l r where lr: "lr = (l, r)" by (cases lr)
    from m0 p Some lr have ps: "page_step lib a self c s
        = split_branch a self c (s\<lparr>new_sep := Some l, new_race := Some r\<rparr>)"
      by (simp add: page_step_classify)
    show ?thesis
    proof (cases "split_branch a self c (s\<lparr>new_sep := Some l, new_race := Some r\<rparr>)")
      case (Inl e)
      from split_branch_Inl [OF Inl] Inl ps show ?thesis
        by (simp add: while_loop_Inl [OF lt])
    next
      case (Inr s2)
      with ps have st: "page_step lib a self c s = Inr s2" by simp
      show ?thesis
      proof (cases "j = 0")
        case True
        with Cons.prems(6) have "objects (input_pdf self ! c) \<noteq> []" by simp
        from both_kept_write_fails [OF assms(1,2) this Inr]
        have "write_fails self s2" .
        from while_loop_doomed [OF rest le ms' this] show ?thesis
          by (simp add: while_loop_Inr [OF lt st])
      next
        case False
        from later [OF False] show ?thesis
          by (simp add: while_loop_Inr [OF lt st])
      qed
    qed
  qed
qed

text \<open>
  C6: with keep-page and keep-page-next both set, a separator page is in the document
  closed and in the one opened. The code breaks this. The page object added to the writer
  that is closed is rewritten by its write, and line 139 adds the same object to the new
  writer, whose write then raises AttributeError: when every page is classified without
  error, both flags are set, and a separator page holds an object that a write rewrites,
  the run ends with AttributeError and never returns.
\<close>

theorem kept_separator_page_raises:
  assumes "keep_page a" and "keep_page_next a"
    and "classify_all lib (self_brightness self) (input_pdf self) = Inr ms"
    and "k < length ms" and "ms ! k = Some m" and "objects (input_pdf self ! k) \<noteq> []"
  shows "split_qr lib a self split_text ifiles = Inl AttributeError"
proof -
  have "objects (input_pdf self ! (0 + k)) \<noteq> []" using assms(6) by simp
  from both_kept_raises [OF assms(1,2) _ _ assms(3,4,5) this, of init_state]
  show ?thesis by (simp add: split_qr_def)
qed

theorem kept_separator_page_raises_witness:
  "split_qr event_reader (args0\<lparr>keep_page := True, keep_page_next := True\<rparr>)
     (splitter [blank_page 1, label_page 2, fax_page 3]) ''RPSEQ:'' 0 = Inl AttributeError
   \<and> classify_all event_reader 128 [blank_page 1, label_page 2, fax_page 3]
       = Inr [None, Some (''EVENT1'', []), None]
   \<and> objects (label_page 2) = [2]"
proof -
  let ?self = "splitter [blank_page 1, label_page 2, fax_page 3]"
  let ?ms = "[None, Some (''EVENT1'', []), None]"
  let ?both = "args0\<lparr>keep_page := True, keep_page_next := True\<rparr>"
  have c: "classify_all event_reader (self_brightness ?self) (input_pdf ?self) = Inr ?ms"
    by code_simp
  have k: "1 < length ?ms" by simp
  have m: "?ms ! 1 = Some (''EVENT1'', [])" by simp
  have o: "objects (input_pdf ?self ! 1) \<noteq> []" by (simp add: splitter_def label_page_def)
  have kp: "keep_page ?both" by simp
  have kpn: "keep_page_next ?both" by simp
  have 1: "split_qr event_reader ?both ?self ''RPSEQ:'' 0 = Inl AttributeError"
    using kept_separator_page_raises [OF kp kpn c k m o] .
  have 2: "classify_all event_reader 128 [blank_page 1, label_page 2, fax_page 3] = Inr ?ms"
    using c by (simp add: splitter_def)
  have 3: "objects (label_page 2) = [2]" by (simp add: label_page_def)
  show ?thesis by (rule conjI [OF 1 conjI [OF 2 3]])
qed

text \<open>
  With neither flag set the run returns, and a separator page is in no file written.
\<close>

lemma separator_page_dropped:
  assumes "classify_all lib (self_brightness self) (input_pdf self) = Inr ms"
    and "k < length ms" and "ms ! k = Some m"
    and "\<not> keep_page a" and "\<not> keep_page_next a"
  shows "\<exists>n fs. split_qr lib a self split_text ifiles = Inr (n, fs)
           \<and> (\<forall>f\<in>set fs. k \<notin> set (snd f))"
proof -
  let ?ims = "zip [0..<length ms] ms"
  let ?fs = "one_step_behind False False ms"
  have r: "split_qr lib a self split_text ifiles = Inr (length ?fs, ?fs)"
    using split_qr_succeeds [OF assms(1), of a split_text ifiles] assms(4,5) by simp
  have "\<forall>f\<in>set ?fs. k \<notin> set (snd f)"
  proof
    fix f assume "f \<in> set ?fs"
    then have "snd f \<in> set (map snd ?fs)" by simp
    then have d: "snd f \<in> set (closed_docs False False ?ims [])"
      by (simp add: one_step_behind_def map_snd_flushed)
    show "k \<notin> set (snd f)"
    proof
      assume "k \<in> set (snd f)"
      from neither_kept_docs [OF d this] have "(k, None) \<in> set ?ims" by simp
      from zip_upt_mark [OF this] assms(3) show False by simp
    qed
  qed
  with r show ?thesis by blast
qed

text \<open>
  With keep-page-next alone, the next write fails as well when the separator page shares
  an object with a page of the document just written.
\<close>

lemma shared_object_raises:
  "split_qr event_reader (args0\<lparr>keep_page_next := True\<rparr>)
     (splitter [blank_page 7, \<lparr>xobjects = xobjects (label_page 2), objects = [2, 7]\<rparr>, fax_page 3])
     ''RPSEQ:'' 0 = Inl AttributeError
   \<and> split_qr event_reader (args0\<lparr>keep_page_next := True\<rparr>)
     (splitter [blank_page 1, label_page 2, fax_page 3]) ''RPSEQ:'' 0
       = Inr (2, [(''999 Unknown.pdf'', [0]), (''EVENT1.pdf'', [1, 2])])"
  by code_simp

section \<open>Labels and secondary ids\<close>

lemma startswith_append: "startswith p (p @ t)"
  by (induction p) simp_all

lemma startswith_nth:
  "startswith p s \<Longrightarrow> i < length p \<Longrightarrow> i < length s \<and> s ! i = p ! i"
proof (induction p s arbitrary: i rule: startswith.induct)
  case (1 s)
  then show ?case by simp
next
  case (2 p ps)
  then show ?case by simp
next
  case (3 p ps c cs)
  then show ?case by (cases i) auto
qed

lemma contains_append: "contains sub (pre @ sub @ rest)"
proof (induction pre)
  case Nil
  show ?case
  proof (cases "sub @ rest")
    case Nil
    then show ?thesis by simp
  next
    case (Cons a l)
    have "startswith sub (sub @ rest)" by (rule startswith_append)
    then have "startswith sub (a # l)" by (simp only: Cons)
    then show ?thesis by (simp add: Cons)
  qed
next
  case (Cons c pre)
  then show ?case by simp
qed

lemma partition2_first:
  assumes "sep \<noteq> []"
    and "\<forall>i<length pre. \<not> startswith sep (drop i (pre @ sep @ rest))"
  shows "partition2 sep (pre @ sep @ rest) = rest"
  using assms(2)
proof (induction pre)
  case Nil
  from assms(1) obtain c cs where "sep @ rest = c # cs" by (cases sep) auto
  moreover have "startswith sep (sep @ rest)" by (rule startswith_append)
  ultimately show ?case by (metis append_Nil append_eq_conv_conj partition2.simps(2))
next
  case (Cons c pre)
  from Cons.prems have "\<not> startswith sep (drop 0 ((c # pre) @ sep @ rest))" by blast
  then have ns: "\<not> startswith sep (c # pre @ sep @ rest)" by simp
  have "\<forall>i<length pre. \<not> startswith sep (drop i (pre @ sep @ rest))"
  proof (intro allI impI)
    fix i assume "i < length pre"
    then have "Suc i < length (c # pre)" by simp
    with Cons.prems have "\<not> startswith sep (drop (Suc i) ((c # pre) @ sep @ rest))" by blast
    then show "\<not> startswith sep (drop i (pre @ sep @ rest))" by simp
  qed
  from Cons.IH [OF this] ns show ?case by simp
qed

lemma no_early_occurrence:
  assumes "c \<notin> set (pre @ w)" and "i < length pre"
  shows "\<not> startswith (w @ c # t) (drop i (pre @ (w @ c # t) @ rest))"
proof
  assume sw: "startswith (w @ c # t) (drop i (pre @ (w @ c # t) @ rest))"
  let ?s = "pre @ (w @ c # t) @ rest"
  have "length w < length (w @ c # t)" by simp
  from startswith_nth [OF sw this]
  have "drop i ?s ! length w = (w @ c # t) ! length w" by simp
  then have "drop i ?s ! length w = c" by simp
  moreover have "drop i ?s ! length w = ?s ! (i + length w)"
    using assms(2) by (intro nth_drop) simp
  moreover have "?s = (pre @ w) @ c # t @ rest" by simp
  then have "?s ! (i + length w) = (pre @ w) ! (i + length w)"
    using assms(2) by (simp only: nth_append) simp
  moreover have "(pre @ w) ! (i + length w) \<in> set (pre @ w)"
    using assms(2) by (intro nth_mem) simp
  ultimately show False using assms(1) by simp
qed

lemma partition2_word:
  assumes "c \<notin> set (pre @ w)"
  shows "partition2 (w @ c # t) (pre @ (w @ c # t) @ rest) = rest"
proof (rule partition2_first)
  show "w @ c # t \<noteq> []" by simp
  show "\<forall>i<length pre. \<not> startswith (w @ c # t) (drop i (pre @ (w @ c # t) @ rest))"
    by (intro allI impI no_early_occurrence [OF assms])
qed

lemma colon_after_RPSEQ:
  assumes "CHR '':'' \<notin> set pre"
  shows "partition2 '':'' (pre @ ''RPSEQ:'' @ rest) = rest"
    and "partition2 ''RPSEQ:'' (pre @ ''RPSEQ:'' @ rest) = rest"
proof -
  have 1: "CHR '':'' \<notin> set ((pre @ ''RPSEQ'') @ [])" using assms by simp
  from partition2_word [OF 1, where t = "[]" and rest = rest]
  show "partition2 '':'' (pre @ ''RPSEQ:'' @ rest) = rest" by simp
  have 2: "CHR '':'' \<notin> set (pre @ ''RPSEQ'')" using assms by simp
  from partition2_word [OF 2, where t = "[]" and rest = rest]
  show "partition2 ''RPSEQ:'' (pre @ ''RPSEQ:'' @ rest) = rest" by simp
qed

lemma space_after_RC:
  assumes "CHR '':'' \<notin> set pre"
  shows "partition2 '': '' (pre @ ''RC: '' @ rest) = rest"
    and "partition2 ''RC: '' (pre @ ''RC: '' @ rest) = rest"
proof -
  have 1: "CHR '':'' \<notin> set ((pre @ ''RC'') @ [])" using assms by simp
  from partition2_word [OF 1, where t = "'' ''" and rest = rest]
  show "partition2 '': '' (pre @ ''RC: '' @ rest) = rest" by simp
  have 2: "CHR '':'' \<notin> set (pre @ ''RC'')" using assms by simp
  from partition2_word [OF 2, where t = "'' ''" and rest = rest]
  show "partition2 ''RC: '' (pre @ ''RC: '' @ rest) = rest" by simp
qed

text \<open>
  C5, as amended: for every payload that contains \<^verbatim>\<open>RPSEQ:\<close> the label is what follows
  the first \<^verbatim>\<open>:\<close> of the payload, and for every payload that contains \<^verbatim>\<open>RC:\<close> the
  secondary id is what follows the first colon-and-space of the payload. When no \<^verbatim>\<open>:\<close>
  comes before \<^verbatim>\<open>RPSEQ:\<close> (or before \<^verbatim>\<open>RC: \<close>) in the payload, that is what follows
  the first occurrence of \<^verbatim>\<open>RPSEQ:\<close> (or of \<^verbatim>\<open>RC: \<close>). For a single ASCII payload,
  \<^verbatim>\<open>extract_barcodes\<close> returns these two values.
\<close>

theorem label_after_first_colon:
  "(contains ''RPSEQ:'' b \<longrightarrow> fst (barcode_step b st) = partition2 '':'' b)
   \<and> (contains ''RC:'' b \<longrightarrow> snd (barcode_step b st) = partition2 '': '' b)
   \<and> (CHR '':'' \<notin> set pre \<longrightarrow>
        fst (barcode_step (pre @ ''RPSEQ:'' @ rest) st) = rest
        \<and> partition2 ''RPSEQ:'' (pre @ ''RPSEQ:'' @ rest) = rest)
   \<and> (CHR '':'' \<notin> set pre \<longrightarrow>
        snd (barcode_step (pre @ ''RC: '' @ rest) st) = rest
        \<and> partition2 ''RC: '' (pre @ ''RC: '' @ rest) = rest)
   \<and> (list_all (\<lambda>c. (of_char c :: nat) < 128) b \<longrightarrow>
        extract_barcodes [[''parsed'' \<mapsto> b]] = Inr (barcode_step b ([], [])))"
proof (intro conjI impI)
  assume "contains ''RPSEQ:'' b"
  then show "fst (barcode_step b st) = partition2 '':'' b"
    by (simp add: barcode_step_def split: prod.split)
next
  assume "contains ''RC:'' b"
  then show "snd (barcode_step b st) = partition2 '': '' b"
    by (simp add: barcode_step_def split: prod.split)
next
  assume h: "CHR '':'' \<notin> set pre"
  have "contains ''RPSEQ:'' (pre @ ''RPSEQ:'' @ rest)" by (rule contains_append)
  then show "fst (barcode_step (pre @ ''RPSEQ:'' @ rest) st) = rest"
    by (simp add: barcode_step_def colon_after_RPSEQ(1) [OF h, simplified] split: prod.split)
  show "partition2 ''RPSEQ:'' (pre @ ''RPSEQ:'' @ rest) = rest"
    by (rule colon_after_RPSEQ(2) [OF h])
next
  assume h: "CHR '':'' \<notin> set pre"
  have "contains ''RC:'' (pre @ ''RC:'' @ ('' '' @ rest))" by (rule contains_append)
  then show "snd (barcode_step (pre @ ''RC: '' @ rest) st) = rest"
    by (simp add: barcode_step_def space_after_RC(1) [OF h, simplified] split: prod.split)
  show "partition2 ''RC: '' (pre @ ''RC: '' @ rest) = rest"
    by (rule space_after_RC(2) [OF h])
next
  assume "list_all (\<lambda>c. (of_char c :: nat) < 128) b"
  then show "extract_barcodes [[''parsed'' \<mapsto> b]] = Inr (barcode_step b ([], []))"
    by (simp add: extract_barcodes_def decode_ascii_def)
qed

text \<open>
  C5 as stated fails: for the payload \<^verbatim>\<open>A:RPSEQ:X\<close> the label is \<^verbatim>\<open>RPSEQ:X\<close>, not
  the \<^verbatim>\<open>X\<close> that follows the first occurrence of the prefix; for the payload
  \<^verbatim>\<open>A: RC: 5\<close> the secondary id is \<^verbatim>\<open>RC: 5\<close>, not \<^verbatim>\<open>5\<close>.
\<close>

theorem label_counterexample:
  "contains ''RPSEQ:'' ''A:RPSEQ:X''
   \<and> extract_barcodes [[''parsed'' \<mapsto> ''A:RPSEQ:X'']] = Inr (''RPSEQ:X'', [])
   \<and> partition2 ''RPSEQ:'' ''A:RPSEQ:X'' = ''X''
   \<and> ''RPSEQ:X'' \<noteq> ''X''
   \<and> contains ''RC:'' ''A: RC: 5''
   \<and> extract_barcodes [[''parsed'' \<mapsto> ''A: RC: 5'']] = Inr ([], ''RC: 5'')
   \<and> partition2 ''RC: '' ''A: RC: 5'' = ''5''"
  by (simp add: extract_barcodes_def decode_ascii_def barcode_step_def)

theorem label_after_first_colon_witness:
  "contains ''RPSEQ:'' ''RPSEQ:EVENT1'' \<and> contains ''RC:'' ''RC: 100''
   \<and> fst (barcode_step ''RPSEQ:EVENT1'' ([], [])) = ''EVENT1''
   \<and> snd (barcode_step ''RC: 100'' ([], [])) = ''100''
   \<and> fst (barcode_step ''ID RPSEQ:EVENT1'' ([], [])) = ''EVENT1''
   \<and> extract_barcodes [[''parsed'' \<mapsto> ''RPSEQ:EVENT1'']] = Inr (''EVENT1'', [])"
proof -
  have c1: "contains ''RPSEQ:'' ''RPSEQ:EVENT1''" by simp
  have c2: "contains ''RC:'' ''RC: 100''" by simp
  have c3: "CHR '':'' \<notin> set ''ID ''" by simp
  have c4: "list_all (\<lambda>c. (of_char c :: nat) < 128) ''RPSEQ:EVENT1''" by simp
  note T = label_after_first_colon [of "''RPSEQ:EVENT1''" "([], [])" "''ID ''" "''EVENT1''"]
  note U = label_after_first_colon [of "''RC: 100''" "([], [])" "[]" "''100''"]
  have 1: "fst (barcode_step ''RPSEQ:EVENT1'' ([], [])) = ''EVENT1''"
    using T [THEN conjunct1, THEN mp, OF c1] by simp
  have 2: "snd (barcode_step ''RC: 100'' ([], [])) = ''100''"
    using U [THEN conjunct2, THEN conjunct1, THEN mp, OF c2] by simp
  have 3: "fst (barcode_step ''ID RPSEQ:EVENT1'' ([], [])) = ''EVENT1''"
    using T [THEN conjunct2, THEN conjunct2, THEN conjunct1, THEN mp, OF c3] by simp
  have 4: "snd (barcode_step ''RC: 100'' ([], [])) = ''100''"
    using U [THEN conjunct2, THEN conjunct2, THEN conjunct2, THEN conjunct1, THEN mp] by simp
  have 5: "extract_barcodes [[''parsed'' \<mapsto> ''RPSEQ:EVENT1'']] = Inr (''EVENT1'', [])"
    using T [THEN conjunct2, THEN conjunct2, THEN conjunct2, THEN conjunct2, THEN mp, OF c4] 1
    by (simp add: barcode_step_def)
  from c1 c2 1 2 3 5 show ?thesis by simp
qed

section \<open>Page classification\<close>

text \<open>
  A page that has an XObject dictionary, whose XObjects all have a subtype and whose
  images all yield their data and carry a filter outside the supported ones, is
  classified as not a separator, whatever the reader would decode.
\<close>

lemma image_loop_unsupported:
  assumes "\<forall>x\<in>set xs. \<exists>t. subtype x = Some t \<and> (t = ''/Image'' \<longrightarrow>
      stream_data x \<noteq> None \<and>
      (\<exists>f. xfilter x = Some f \<and> \<not> (filter_has ''/FlateDecode'' f \<or> filter_has ''/DCTDecode'' f
         \<or> filter_has ''/JPXDecode'' f)))"
  shows "image_loop lib b xs st = Inr st"
  using assms
proof (induction xs)
  case Nil
  show ?case by simp
next
  case (Cons x xs)
  from Cons.prems obtain t where t: "subtype x = Some t"
    and im: "t = ''/Image'' \<longrightarrow> stream_data x \<noteq> None \<and>
      (\<exists>f. xfilter x = Some f \<and> \<not> (filter_has ''/FlateDecode'' f \<or> filter_has ''/DCTDecode'' f
         \<or> filter_has ''/JPXDecode'' f))"
    by auto
  have "image_step lib b x st = Inr st"
  proof (cases "t = ''/Image''")
    case True
    with im obtain d f where "stream_data x = Some d" and "xfilter x = Some f"
      and "\<not> (filter_has ''/FlateDecode'' f \<or> filter_has ''/DCTDecode'' f
         \<or> filter_has ''/JPXDecode'' f)"
      by auto
    with True t show ?thesis by (simp add: image_step_def)
  next
    case False
    with t show ?thesis by (simp add: image_step_def)
  qed
  moreover have "image_loop lib b xs st = Inr st"
    using Cons.prems by (intro Cons.IH) simp
  ultimately show ?case by simp
qed

lemma unsupported_images_not_separator:
  assumes "xobjects pg = Some xObject"
    and "\<forall>x\<in>set (map snd xObject). \<exists>t. subtype x = Some t \<and> (t = ''/Image'' \<longrightarrow>
      stream_data x \<noteq> None \<and>
      (\<exists>f. xfilter x = Some f \<and> \<not> (filter_has ''/FlateDecode'' f \<or> filter_has ''/DCTDecode'' f
         \<or> filter_has ''/JPXDecode'' f)))"
  shows "classify lib b pg = Inr None"
  by (simp add: classify_def assms(1) image_loop_unsupported [OF assms(2)])

text \<open>
  C9: a page without embedded images is never a separator and is appended without an
  error. The code breaks this for a page whose resources have no \<^verbatim>\<open>/XObject\<close> entry:
  the lookup at line 81 raises KeyError, and the run ends with that error.
\<close>

theorem page_without_xobjects_raises:
  "classify event_reader 128 (text_page 1) = Inl KeyError
   \<and> split_qr event_reader args0 (splitter [text_page 1]) ''RPSEQ:'' 0 = Inl KeyError
   \<and> main event_reader args0 [(''scan.pdf'', [blank_page 1, text_page 2])] = Inl KeyError"
  by code_simp

text \<open>
  An image in a filter that PyPDF4 cannot decode ends the run as well: its data is
  fetched before the filter is looked at.
\<close>

lemma undecodable_image_raises:
  "split_qr event_reader args0
     (splitter [\<lparr>xobjects = Some [(''/Im0'', \<lparr>subtype = Some ''/Image'', stream_data = None,
                                              xfilter = Some (Name ''/JBIG2Decode'')\<rparr>)],
                 objects = [1]\<rparr>])
     ''RPSEQ:'' 0 = Inl NotImplementedError"
  by code_simp

text \<open>
  C1: a page is a separator iff one of its payloads contains the configured separator
  prefix. The code breaks this: with \<^verbatim>\<open>--separator SPLIT:\<close> a page whose image decodes
  to the payload \<^verbatim>\<open>SPLIT:A\<close> is classified as not a separator, and both pages of the
  document are written to one file, because \<^verbatim>\<open>extract_barcodes\<close> tests for the fixed
  string \<^verbatim>\<open>RPSEQ:\<close> and \<^verbatim>\<open>split_qr\<close> never reads \<^verbatim>\<open>split_text\<close>.
\<close>

theorem separator_option_ignored:
  "contains ''SPLIT:'' ''SPLIT:A''
   \<and> pil_open custom_reader ''black'' = Some [0]
   \<and> zxing_decode custom_reader (binarize 128 [0]) = [[''parsed'' \<mapsto> ''SPLIT:A'']]
   \<and> classify custom_reader 128 (label_page 1) = Inr None
   \<and> main custom_reader (args0\<lparr>separator := ''SPLIT:''\<rparr>)
        [(''scan.pdf'', [label_page 1, blank_page 2])]
       = Inr (1, 1, [(''999 Unknown.pdf'', [0, 1])])"
  by (simp add: custom_reader_def table_library_def rasters_def binarize_def fn_def) code_simp

section \<open>A label and a secondary id on one image\<close>

lemma image_loop_append:
  "image_loop lib b (xs @ ys) st =
     (case image_loop lib b xs st of Inl e \<Rightarrow> Inl e | Inr st1 \<Rightarrow> image_loop lib b ys st1)"
  by (induction xs arbitrary: st) (simp_all split: sum.split)

lemma extract_label_and_id:
  assumes "rs = [[''parsed'' \<mapsto> ''RPSEQ:EVENT1''], [''parsed'' \<mapsto> ''RC: 100'']]
     \<or> rs = [[''parsed'' \<mapsto> ''RC: 100''], [''parsed'' \<mapsto> ''RPSEQ:EVENT1'']]"
  shows "extract_barcodes rs = Inr (''EVENT1'', ''100'')"
  using assms
  by (auto simp add: extract_barcodes_def decode_ascii_def barcode_step_def)

lemma separators_append: "separators (xs @ ys) = separators xs @ separators ys"
  by (induction xs rule: separators.induct) simp_all

lemma closed_docs_append_separator:
  "\<exists>pre. closed_docs kp kpn (ims1 @ (k, Some m) # ims2) doc
            = pre @ closed_docs kp kpn ims2 (if kpn then [k] else [])
         \<and> length pre = Suc (length (separators (map snd ims1)))"
proof (induction ims1 arbitrary: doc)
  case Nil
  have "closed_docs kp kpn ([] @ (k, Some m) # ims2) doc
      = [if kp then doc @ [k] else doc] @ closed_docs kp kpn ims2 (if kpn then [k] else [])"
    by simp
  then show ?case by (intro exI [of _ "[if kp then doc @ [k] else doc]"]) simp
next
  case (Cons im ims1)
  obtain i mk where im: "im = (i, mk)" by (cases im)
  show ?case
  proof (cases mk)
    case None
    from Cons.IH [of "doc @ [i]"] show ?thesis by (simp add: im None)
  next
    case (Some m')
    from Cons.IH [of "if kpn then [i] else []"]
    obtain pre where p: "closed_docs kp kpn (ims1 @ (k, Some m) # ims2) (if kpn then [i] else [])
            = pre @ closed_docs kp kpn ims2 (if kpn then [k] else [])"
      and l: "length pre = Suc (length (separators (map snd ims1)))"
      by blast
    have "closed_docs kp kpn ((im # ims1) @ (k, Some m) # ims2) doc
        = ((if kp then doc @ [i] else doc) # pre) @ closed_docs kp kpn ims2 (if kpn then [k] else [])"
      by (simp add: im Some p)
    moreover have "length ((if kp then doc @ [i] else doc) # pre)
        = Suc (length (separators (map snd (im # ims1))))"
      by (simp add: im Some l)
    ultimately show ?thesis by blast
  qed
qed

lemma zip_upt_split:
  assumes "k < length ms"
  shows "zip [0..<length ms] ms
           = zip [0..<k] (take k ms) @ (k, ms ! k) # zip [Suc k..<length ms] (drop (Suc k) ms)"
proof -
  have u: "[0..<length ms] = [0..<k] @ k # [Suc k..<length ms]"
    using assms by (metis le_add1 less_imp_add_positive plus_nat.add_0 upt_add_eq_append upt_conv_Cons)
  have m: "ms = take k ms @ ms ! k # drop (Suc k) ms"
    using assms by (simp add: id_take_nth_drop [symmetric])
  have "zip ([0..<k] @ k # [Suc k..<length ms]) (take k ms @ ms ! k # drop (Suc k) ms)
      = zip [0..<k] (take k ms) @ zip (k # [Suc k..<length ms]) (ms ! k # drop (Suc k) ms)"
    using assms by (intro zip_append) simp
  then show ?thesis using u m by (metis zip_Cons_Cons)
qed

text \<open>
  The document opened at a separator page is the first one closed when the engine goes
  on from the page after it; it is written, when it has pages, under the name made from
  the pair decoded at the separator.
\<close>

lemma next_document_named:
  assumes "k < length ms" and "ms ! k = Some m"
    and "hd (closed_docs kp kpn (zip [Suc k..<length ms] (drop (Suc k) ms))
               (if kpn then [k] else [])) \<noteq> []"
  shows "(spec_name m,
          hd (closed_docs kp kpn (zip [Suc k..<length ms] (drop (Suc k) ms))
                (if kpn then [k] else [])))
         \<in> set (one_step_behind kp kpn ms)"
proof -
  let ?ims1 = "zip [0..<k] (take k ms)"
  let ?ims2 = "zip [Suc k..<length ms] (drop (Suc k) ms)"
  let ?D = "hd (closed_docs kp kpn ?ims2 (if kpn then [k] else []))"
  let ?names = "map spec_name ((''999 Unknown'', []) # separators ms)"
  let ?docs = "closed_docs kp kpn (zip [0..<length ms] ms) []"
  have z: "zip [0..<length ms] ms = ?ims1 @ (k, Some m) # ?ims2"
    using zip_upt_split [OF assms(1)] assms(2) by simp
  from closed_docs_append_separator [of kp kpn ?ims1 k m ?ims2 "[]"]
  obtain pre where p: "?docs = pre @ closed_docs kp kpn ?ims2 (if kpn then [k] else [])"
    and l: "length pre = Suc (length (separators (map snd ?ims1)))"
    unfolding z by blast
  obtain ext ds where cd: "closed_docs kp kpn ?ims2 (if kpn then [k] else [])
      = ((if kpn then [k] else []) @ ext) # ds"
    using closed_docs_hd [of kp kpn ?ims2 "if kpn then [k] else []"] by blast
  have D: "?D = (if kpn then [k] else []) @ ext" by (simp add: cd)
  have docs: "?docs = pre @ ?D # ds" by (simp add: p cd)
  have s1: "separators (map snd ?ims1) = separators (take k ms)"
    using assms(1) by (simp add: map_snd_zip)
  have "ms = take k ms @ Some m # drop (Suc k) ms"
    using assms(1,2) by (metis id_take_nth_drop)
  then have "separators ms = separators (take k ms) @ m # separators (drop (Suc k) ms)"
    by (metis separators_append separators.simps(3))
  then have names: "?names = (map spec_name ((''999 Unknown'', []) # separators (take k ms)))
      @ spec_name m # map spec_name (separators (drop (Suc k) ms))"
    by simp
  have len: "length (map spec_name ((''999 Unknown'', []) # separators (take k ms))) = length pre"
    by (simp add: l s1)
  have "zip ?names ?docs
      = zip (map spec_name ((''999 Unknown'', []) # separators (take k ms))) pre
        @ zip (spec_name m # map spec_name (separators (drop (Suc k) ms))) (?D # ds)"
    unfolding names docs using len by (rule zip_append)
  then have "(spec_name m, ?D) \<in> set (zip ?names ?docs)" by simp
  with assms(3) show ?thesis
    by (simp add: one_step_behind_def flushed_def map_snd_zip)
qed

lemma closed_docs_first:
  "hd (closed_docs kp kpn ims doc) =
     doc @ map fst (takeWhile (\<lambda>im. snd im = None) ims)
       @ (case dropWhile (\<lambda>im. snd im = None) ims of
            [] \<Rightarrow> []
          | im # _ \<Rightarrow> if kp then [fst im] else [])"
  by (induction kp kpn ims doc rule: closed_docs.induct) simp_all

text \<open>
  C4, as amended: for a page with a supported image from which the payloads
  \<^verbatim>\<open>RPSEQ:EVENT1\<close> and \<^verbatim>\<open>RC: 100\<close> are both decoded, in either order, where the images
  before it raise no error and the images after it neither raise an error nor yield a
  label, classification yields the label \<^verbatim>\<open>EVENT1\<close> and the secondary id \<^verbatim>\<open>100\<close>. When
  a run returns in which page \<open>k\<close> is classified so, the document opened at page \<open>k\<close> and
  closed at the next boundary holds page \<open>k\<close> when keep-page-next is set, the pages after
  \<open>k\<close> up to the next separator, and that separator when keep-page is set; when it has
  pages, it is written under the name \<^verbatim>\<open>EVENT1-100.pdf\<close>.
\<close>

theorem same_image_label_and_id:
  "(xobjects pg = Some (before @ (nm, x) # after)
      \<and> image_loop lib b (map snd before) (False, None, None) = Inr st0
      \<and> subtype x = Some ''/Image'' \<and> stream_data x = Some d \<and> xfilter x = Some f
      \<and> (filter_has ''/FlateDecode'' f \<or> filter_has ''/DCTDecode'' f
            \<or> filter_has ''/JPXDecode'' f)
      \<and> pil_open lib d = Some g
      \<and> (zxing_decode lib (binarize b g)
            = [[''parsed'' \<mapsto> ''RPSEQ:EVENT1''], [''parsed'' \<mapsto> ''RC: 100'']]
          \<or> zxing_decode lib (binarize b g)
            = [[''parsed'' \<mapsto> ''RC: 100''], [''parsed'' \<mapsto> ''RPSEQ:EVENT1'']])
      \<and> image_loop lib b (map snd after) (True, Some ''EVENT1'', Some ''100'')
            = Inr (True, Some ''EVENT1'', Some ''100'')
     \<longrightarrow> classify lib b pg = Inr (Some (''EVENT1'', ''100'')))
   \<and> (classify_all lib (self_brightness self) (input_pdf self) = Inr ms
      \<and> k < length ms \<and> ms ! k = Some (''EVENT1'', ''100'')
      \<and> split_qr lib a self split_text ifiles = Inr (n, fs)
      \<and> doc = hd (closed_docs (keep_page a) (keep_page_next a)
                     (zip [Suc k..<length ms] (drop (Suc k) ms))
                     (if keep_page_next a then [k] else []))
     \<longrightarrow> doc = (if keep_page_next a then [k] else [])
              @ map fst (takeWhile (\<lambda>im. snd im = None)
                           (zip [Suc k..<length ms] (drop (Suc k) ms)))
              @ (case dropWhile (\<lambda>im. snd im = None)
                        (zip [Suc k..<length ms] (drop (Suc k) ms)) of
                   [] \<Rightarrow> []
                 | im # _ \<Rightarrow> if keep_page a then [fst im] else [])
         \<and> (doc = [] \<or> (''EVENT1-100.pdf'', doc) \<in> set fs))"
proof (intro conjI impI)
  assume h: "xobjects pg = Some (before @ (nm, x) # after)
      \<and> image_loop lib b (map snd before) (False, None, None) = Inr st0
      \<and> subtype x = Some ''/Image'' \<and> stream_data x = Some d \<and> xfilter x = Some f
      \<and> (filter_has ''/FlateDecode'' f \<or> filter_has ''/DCTDecode'' f
            \<or> filter_has ''/JPXDecode'' f)
      \<and> pil_open lib d = Some g
      \<and> (zxing_decode lib (binarize b g)
            = [[''parsed'' \<mapsto> ''RPSEQ:EVENT1''], [''parsed'' \<mapsto> ''RC: 100'']]
          \<or> zxing_decode lib (binarize b g)
            = [[''parsed'' \<mapsto> ''RC: 100''], [''parsed'' \<mapsto> ''RPSEQ:EVENT1'']])
      \<and> image_loop lib b (map snd after) (True, Some ''EVENT1'', Some ''100'')
            = Inr (True, Some ''EVENT1'', Some ''100'')"
  then have xo: "xobjects pg = Some (before @ (nm, x) # after)"
    and pre: "image_loop lib b (map snd before) (False, None, None) = Inr st0"
    and x: "subtype x = Some ''/Image''" "stream_data x = Some d" "xfilter x = Some f"
      "filter_has ''/FlateDecode'' f \<or> filter_has ''/DCTDecode'' f \<or> filter_has ''/JPXDecode'' f"
      "pil_open lib d = Some g"
    and rs: "zxing_decode lib (binarize b g)
            = [[''parsed'' \<mapsto> ''RPSEQ:EVENT1''], [''parsed'' \<mapsto> ''RC: 100'']]
          \<or> zxing_decode lib (binarize b g)
            = [[''parsed'' \<mapsto> ''RC: 100''], [''parsed'' \<mapsto> ''RPSEQ:EVENT1'']]"
    and post: "image_loop lib b (map snd after) (True, Some ''EVENT1'', Some ''100'')
            = Inr (True, Some ''EVENT1'', Some ''100'')"
    by simp_all
  have st: "image_step lib b x st0 = Inr (True, Some ''EVENT1'', Some ''100'')"
    using x by (simp add: image_step_def extract_label_and_id [OF rs])
  have "image_loop lib b (map snd (before @ (nm, x) # after)) (False, None, None)
      = Inr (True, Some ''EVENT1'', Some ''100'')"
    by (simp add: image_loop_append pre st post)
  then show "classify lib b pg = Inr (Some (''EVENT1'', ''100''))"
    by (simp add: classify_def xo)
next
  assume h: "classify_all lib (self_brightness self) (input_pdf self) = Inr ms
      \<and> k < length ms \<and> ms ! k = Some (''EVENT1'', ''100'')
      \<and> split_qr lib a self split_text ifiles = Inr (n, fs)
      \<and> doc = hd (closed_docs (keep_page a) (keep_page_next a)
                     (zip [Suc k..<length ms] (drop (Suc k) ms))
                     (if keep_page_next a then [k] else []))"
  then have ms: "classify_all lib (self_brightness self) (input_pdf self) = Inr ms"
    and k: "k < length ms" and m: "ms ! k = Some (''EVENT1'', ''100'')"
    and r: "split_qr lib a self split_text ifiles = Inr (n, fs)"
    and doc: "doc = hd (closed_docs (keep_page a) (keep_page_next a)
                     (zip [Suc k..<length ms] (drop (Suc k) ms))
                     (if keep_page_next a then [k] else []))"
    by simp_all
  show "doc = (if keep_page_next a then [k] else [])
              @ map fst (takeWhile (\<lambda>im. snd im = None)
                           (zip [Suc k..<length ms] (drop (Suc k) ms)))
              @ (case dropWhile (\<lambda>im. snd im = None)
                        (zip [Suc k..<length ms] (drop (Suc k) ms)) of
                   [] \<Rightarrow> []
                 | im # _ \<Rightarrow> if keep_page a then [fst im] else [])"
    unfolding doc by (rule closed_docs_first)
  from split_qr_Inr [OF r] ms
  have fs: "fs = one_step_behind (keep_page a) (keep_page_next a) ms" by simp
  have nm: "spec_name (''EVENT1'', ''100'') = ''EVENT1-100.pdf''"
    by (simp add: spec_name_def)
  show "doc = [] \<or> (''EVENT1-100.pdf'', doc) \<in> set fs"
  proof (cases "doc = []")
    case True
    then show ?thesis by simp
  next
    case False
    from next_document_named [OF k m False [unfolded doc]]
    show ?thesis unfolding fs doc nm by simp
  qed
qed

theorem same_image_label_and_id_witness:
  "classify event_reader 128 (one_image_page 2) = Inr (Some (''EVENT1'', ''100''))
   \<and> split_qr event_reader args0 (splitter [blank_page 1, one_image_page 2, blank_page 3])
        ''RPSEQ:'' 0
       = Inr (2, [(''999 Unknown.pdf'', [0]), (''EVENT1-100.pdf'', [2])])
   \<and> [2] = hd (closed_docs (keep_page args0) (keep_page_next args0)
                 (zip [Suc 1..<length [None, Some (''EVENT1'', ''100''), None]]
                      (drop (Suc 1) [None, Some (''EVENT1'', ''100''), None]))
                 (if keep_page_next args0 then [1] else []))
   \<and> (''EVENT1-100.pdf'', [2])
        \<in> set [(''999 Unknown.pdf'', [0::nat]), (''EVENT1-100.pdf'', [2])]"
proof -
  let ?x = "image ''/DCTDecode'' ''both''"
  let ?self = "splitter [blank_page 1, one_image_page 2, blank_page 3]"
  let ?ms = "[None, Some (''EVENT1'', ''100''), None]"
  let ?fs = "[(''999 Unknown.pdf'', [0::nat]), (''EVENT1-100.pdf'', [2])]"
  have h1: "xobjects (one_image_page 2) = Some ([] @ (''/Im0'', ?x) # [])
      \<and> image_loop event_reader 128 (map snd []) (False, None, None) = Inr (False, None, None)
      \<and> subtype ?x = Some ''/Image'' \<and> stream_data ?x = Some ''both''
      \<and> xfilter ?x = Some (Name ''/DCTDecode'')
      \<and> (filter_has ''/FlateDecode'' (Name ''/DCTDecode'')
            \<or> filter_has ''/DCTDecode'' (Name ''/DCTDecode'')
            \<or> filter_has ''/JPXDecode'' (Name ''/DCTDecode''))
      \<and> pil_open event_reader ''both'' = Some [0, 255]
      \<and> (zxing_decode event_reader (binarize 128 [0, 255])
            = [[''parsed'' \<mapsto> ''RPSEQ:EVENT1''], [''parsed'' \<mapsto> ''RC: 100'']]
          \<or> zxing_decode event_reader (binarize 128 [0, 255])
            = [[''parsed'' \<mapsto> ''RC: 100''], [''parsed'' \<mapsto> ''RPSEQ:EVENT1'']])
      \<and> image_loop event_reader 128 (map snd []) (True, Some ''EVENT1'', Some ''100'')
            = Inr (True, Some ''EVENT1'', Some ''100'')"
    by (simp add: one_image_page_def image_def event_reader_def table_library_def rasters_def
        binarize_def fn_def)
  have 1: "classify event_reader 128 (one_image_page 2) = Inr (Some (''EVENT1'', ''100''))"
    using same_image_label_and_id [THEN conjunct1, THEN mp, OF h1] .
  have r: "split_qr event_reader args0 ?self ''RPSEQ:'' 0 = Inr (2, ?fs)"
    by code_simp
  have c: "classify_all event_reader (self_brightness ?self) (input_pdf ?self) = Inr ?ms"
    by code_simp
  have d: "[2] = hd (closed_docs (keep_page args0) (keep_page_next args0)
                 (zip [Suc 1..<length ?ms] (drop (Suc 1) ?ms))
                 (if keep_page_next args0 then [1] else []))"
    by (simp add: args0_def)
  have h2: "classify_all event_reader (self_brightness ?self) (input_pdf ?self) = Inr ?ms
      \<and> 1 < length ?ms \<and> ?ms ! 1 = Some (''EVENT1'', ''100'')
      \<and> split_qr event_reader args0 ?self ''RPSEQ:'' 0 = Inr (2, ?fs)
      \<and> [2] = hd (closed_docs (keep_page args0) (keep_page_next args0)
                 (zip [Suc 1..<length ?ms] (drop (Suc 1) ?ms))
                 (if keep_page_next args0 then [1] else []))"
    using c r d by simp
  have "[2::nat] = [] \<or> (''EVENT1-100.pdf'', [2]) \<in> set ?fs"
    using same_image_label_and_id [THEN conjunct2, THEN mp, OF h2, THEN conjunct2] .
  then have 4: "(''EVENT1-100.pdf'', [2]) \<in> set ?fs" by simp
  show ?thesis by (rule conjI [OF 1 conjI [OF r conjI [OF d 4]]])
qed

text \<open>
  C4 as stated fails: with \<^verbatim>\<open>RPSEQ:EVENT1\<close> decoded from one image of the page and
  \<^verbatim>\<open>RC: 100\<close> from another, the secondary id is empty and the next document is written
  as \<^verbatim>\<open>EVENT1.pdf\<close>.
\<close>

theorem different_image_counterexample:
  "zxing_decode event_reader (binarize 128 [0]) = [[''parsed'' \<mapsto> ''RPSEQ:EVENT1'']]
   \<and> zxing_decode event_reader (binarize 128 [255]) = [[''parsed'' \<mapsto> ''RC: 100'']]
   \<and> pil_open event_reader ''black'' = Some [0] \<and> pil_open event_reader ''white'' = Some [255]
   \<and> classify event_reader 128 (two_image_page 1) = Inr (Some (''EVENT1'', []))
   \<and> split_qr event_reader args0 (splitter [two_image_page 1, blank_page 2]) ''RPSEQ:'' 0
       = Inr (1, [(''EVENT1.pdf'', [1])])
   \<and> ''EVENT1.pdf'' \<noteq> ''EVENT1-100.pdf''"
  by (simp add: event_reader_def table_library_def rasters_def binarize_def fn_def) code_simp

section \<open>The brightness threshold\<close>

lemma classify_one_image:
  assumes "xobjects pg = Some [(nm, x)]"
    and "subtype x = Some ''/Image''" and "stream_data x = Some d" and "xfilter x = Some f"
    and "filter_has ''/FlateDecode'' f \<or> filter_has ''/DCTDecode'' f \<or> filter_has ''/JPXDecode'' f"
    and "pil_open lib d = Some g"
  shows "classify lib b pg =
     (case extract_barcodes (zxing_decode lib (binarize b g)) of
        Inl e \<Rightarrow> Inl e
      | Inr (sep, race) \<Rightarrow> Inr (if sep \<noteq> [] then Some (sep, race) else None))"
proof (cases "extract_barcodes (zxing_decode lib (binarize b g))")
  case (Inl e)
  with assms show ?thesis by (simp add: classify_def image_step_def)
next
  case (Inr sr)
  obtain sep race where "sr = (sep, race)" by (cases sr)
  with Inr assms show ?thesis by (simp add: classify_def image_step_def)
qed

text \<open>
  C8: the brightness threshold is clamped to the range 0 to 255 before use. The threshold
  after the adjustment is 0 for a negative input, 255 for an input above 255 and the
  input itself otherwise, so a run with brightness -10 gives the same result as a run
  with 0, and a run with 300 the same as a run with 255. Every file is split under the
  clamped threshold, each page is handled as its classification under the threshold of
  the splitter says, the classification of a page with one supported image is decided
  by what the reader decodes from the raster binarized at that threshold, and
  binarization maps a grayscale pixel to 255 when it is strictly greater than the
  threshold and to 0 otherwise.
\<close>

theorem brightness_clamped:
  "brightness (adjust_args a)
     = (if brightness a < 0 then 0 else if 255 < brightness a then 255 else brightness a)
   \<and> main lib (a\<lparr>brightness := - 10\<rparr>) fps = main lib (a\<lparr>brightness := 0\<rparr>) fps
   \<and> main lib (a\<lparr>brightness := 300\<rparr>) fps = main lib (a\<lparr>brightness := 255\<rparr>) fps
   \<and> main lib a fps
       = (if fps = [] then Inl SystemExit else files_loop lib (adjust_args a) fps (0, 0, []))
   \<and> files_loop lib (adjust_args a) ((fp, pdf) # rest) (i, n0, out)
       = (case split_qr lib (adjust_args a)
                 \<lparr>filepath = fp, self_verbose = (verbose a \<or> debug a), self_debug = debug a,
                    self_brightness = (if brightness a < 0 then 0
                                       else if 255 < brightness a then 255 else brightness a),
                    input_pdf = pdf\<rparr>
                 (separator a) i of
            Inl e \<Rightarrow> Inl e
          | Inr (n, fs) \<Rightarrow> files_loop lib (adjust_args a) rest (i + 1, n0 + n, out @ fs))
   \<and> page_step lib a self c s =
       (case classify lib (self_brightness self) (input_pdf self ! c) of
          Inl e \<Rightarrow> Inl e
        | Inr None \<Rightarrow> Inr (s\<lparr>pdf_writer := pdf_writer s @ [(reader_no s, c)]\<rparr>)
        | Inr (Some (l, r)) \<Rightarrow>
            split_branch a self c (s\<lparr>new_sep := Some l, new_race := Some r\<rparr>))
   \<and> (xobjects pg = Some [(nm, x)]
        \<and> subtype x = Some ''/Image'' \<and> stream_data x = Some d \<and> xfilter x = Some f
        \<and> (filter_has ''/FlateDecode'' f \<or> filter_has ''/DCTDecode'' f
              \<or> filter_has ''/JPXDecode'' f)
        \<and> pil_open lib d = Some g
      \<longrightarrow> classify lib b pg =
            (case extract_barcodes (zxing_decode lib (binarize b g)) of
               Inl e \<Rightarrow> Inl e
             | Inr (sep, race) \<Rightarrow> Inr (if sep \<noteq> [] then Some (sep, race) else None)))
   \<and> binarize b img = map (\<lambda>x. if b < uint x then 255 else 0) img"
proof -
  have cl: "brightness (adjust_args a)
     = (if brightness a < 0 then 0 else if 255 < brightness a then 255 else brightness a)"
    by (simp add: adjust_args_def Let_def)
  have lo: "adjust_args (a\<lparr>brightness := - 10\<rparr>) = adjust_args (a\<lparr>brightness := 0\<rparr>)"
    by (simp add: adjust_args_def Let_def)
  have hi: "adjust_args (a\<lparr>brightness := 300\<rparr>) = adjust_args (a\<lparr>brightness := 255\<rparr>)"
    by (simp add: adjust_args_def Let_def)
  have 2: "main lib (a\<lparr>brightness := - 10\<rparr>) fps = main lib (a\<lparr>brightness := 0\<rparr>) fps"
    by (simp add: main_def lo)
  have 3: "main lib (a\<lparr>brightness := 300\<rparr>) fps = main lib (a\<lparr>brightness := 255\<rparr>) fps"
    by (simp add: main_def hi)
  have 4: "main lib a fps
       = (if fps = [] then Inl SystemExit else files_loop lib (adjust_args a) fps (0, 0, []))"
    by (simp add: main_def)
  have v: "verbose (adjust_args a) = (verbose a \<or> debug a)"
    and d: "debug (adjust_args a) = debug a" and sp: "separator (adjust_args a) = separator a"
    by (simp_all add: adjust_args_def Let_def)
  have 5: "files_loop lib (adjust_args a) ((fp, pdf) # rest) (i, n0, out)
       = (case split_qr lib (adjust_args a)
                 \<lparr>filepath = fp, self_verbose = (verbose a \<or> debug a), self_debug = debug a,
                    self_brightness = (if brightness a < 0 then 0
                                       else if 255 < brightness a then 255 else brightness a),
                    input_pdf = pdf\<rparr>
                 (separator a) i of
            Inl e \<Rightarrow> Inl e
          | Inr (n, fs) \<Rightarrow> files_loop lib (adjust_args a) rest (i + 1, n0 + n, out @ fs))"
    unfolding files_loop.simps Let_def v d sp cl ..
  have 6: "page_step lib a self c s =
       (case classify lib (self_brightness self) (input_pdf self ! c) of
          Inl e \<Rightarrow> Inl e
        | Inr None \<Rightarrow> Inr (s\<lparr>pdf_writer := pdf_writer s @ [(reader_no s, c)]\<rparr>)
        | Inr (Some (l, r)) \<Rightarrow>
            split_branch a self c (s\<lparr>new_sep := Some l, new_race := Some r\<rparr>))"
    by (rule page_step_classify)
  have 7: "xobjects pg = Some [(nm, x)]
        \<and> subtype x = Some ''/Image'' \<and> stream_data x = Some d \<and> xfilter x = Some f
        \<and> (filter_has ''/FlateDecode'' f \<or> filter_has ''/DCTDecode'' f
              \<or> filter_has ''/JPXDecode'' f)
        \<and> pil_open lib d = Some g
      \<longrightarrow> classify lib b pg =
            (case extract_barcodes (zxing_decode lib (binarize b g)) of
               Inl e \<Rightarrow> Inl e
             | Inr (sep, race) \<Rightarrow> Inr (if sep \<noteq> [] then Some (sep, race) else None))"
    by (intro impI) (elim conjE, rule classify_one_image, assumption+)
  have 8: "binarize b img = map (\<lambda>x. if b < uint x then 255 else 0) img"
    by (simp add: binarize_def fn_def)
  show ?thesis
    by (rule conjI [OF cl conjI [OF 2 conjI [OF 3 conjI [OF 4 conjI [OF 5 conjI [OF 6
          conjI [OF 7 8]]]]]]])
qed

theorem brightness_clamped_witness:
  "classify event_reader 150 (mid_page 1) = Inr (Some (''EVENT1'', ''100''))
   \<and> classify event_reader 255 (mid_page 1) = Inr None
   \<and> binarize 150 [100, 200] = [0, 255] \<and> binarize 255 [100, 200] = [0, 0]
   \<and> brightness (adjust_args (args0\<lparr>brightness := 300\<rparr>)) = 255
   \<and> brightness (adjust_args (args0\<lparr>brightness := - 10\<rparr>)) = 0
   \<and> brightness (adjust_args (args0\<lparr>brightness := 150\<rparr>)) = 150
   \<and> main event_reader (args0\<lparr>brightness := 150\<rparr>) [(''scan.pdf'', [mid_page 1, blank_page 2])]
       = Inr (1, 1, [(''EVENT1-100.pdf'', [1])])
   \<and> main event_reader (args0\<lparr>brightness := 300\<rparr>) [(''scan.pdf'', [mid_page 1, blank_page 2])]
       = Inr (1, 1, [(''999 Unknown.pdf'', [0, 1])])"
proof -
  let ?x = "image ''/DCTDecode'' ''mid''"
  have h: "xobjects (mid_page 1) = Some [(''/Im0'', ?x)]
        \<and> subtype ?x = Some ''/Image'' \<and> stream_data ?x = Some ''mid''
        \<and> xfilter ?x = Some (Name ''/DCTDecode'')
        \<and> (filter_has ''/FlateDecode'' (Name ''/DCTDecode'')
              \<or> filter_has ''/DCTDecode'' (Name ''/DCTDecode'')
              \<or> filter_has ''/JPXDecode'' (Name ''/DCTDecode''))
        \<and> pil_open event_reader ''mid'' = Some [100, 200]"
    by (simp add: mid_page_def image_def event_reader_def table_library_def rasters_def)
  have b1: "binarize 150 [100, 200] = [0, 255]" by (simp add: binarize_def fn_def)
  have b2: "binarize 255 [100, 200] = [0, 0]" by (simp add: binarize_def fn_def)
  have 1: "classify event_reader 150 (mid_page 1) = Inr (Some (''EVENT1'', ''100''))"
    using brightness_clamped [where lib = event_reader and pg = "mid_page 1" and x = ?x
        and b = 150, THEN conjunct2, THEN conjunct2, THEN conjunct2, THEN conjunct2,
        THEN conjunct2, THEN conjunct2, THEN conjunct1, THEN mp, OF h]
    by (simp add: b1 event_reader_def table_library_def extract_barcodes_def decode_ascii_def
        barcode_step_def)
  have 2: "classify event_reader 255 (mid_page 1) = Inr None"
    using brightness_clamped [where lib = event_reader and pg = "mid_page 1" and x = ?x
        and b = 255, THEN conjunct2, THEN conjunct2, THEN conjunct2, THEN conjunct2,
        THEN conjunct2, THEN conjunct2, THEN conjunct1, THEN mp, OF h]
    by (simp add: b2 event_reader_def table_library_def extract_barcodes_def)
  have 3: "brightness (adjust_args (args0\<lparr>brightness := 300\<rparr>)) = 255"
    using brightness_clamped [where a = "args0\<lparr>brightness := 300\<rparr>", THEN conjunct1] by simp
  have 4: "brightness (adjust_args (args0\<lparr>brightness := - 10\<rparr>)) = 0"
    using brightness_clamped [where a = "args0\<lparr>brightness := - 10\<rparr>", THEN conjunct1] by simp
  have 5: "brightness (adjust_args (args0\<lparr>brightness := 150\<rparr>)) = 150"
    using brightness_clamped [where a = "args0\<lparr>brightness := 150\<rparr>", THEN conjunct1] by simp
  have 6: "main event_reader (args0\<lparr>brightness := 150\<rparr>)
       [(''scan.pdf'', [mid_page 1, blank_page 2])] = Inr (1, 1, [(''EVENT1-100.pdf'', [1])])"
    by code_simp
  have 7: "main event_reader (args0\<lparr>brightness := 300\<rparr>)
       [(''scan.pdf'', [mid_page 1, blank_page 2])] = Inr (1, 1, [(''999 Unknown.pdf'', [0, 1])])"
    by code_simp
  show ?thesis
    by (rule conjI [OF 1 conjI [OF 2 conjI [OF b1 conjI [OF b2 conjI [OF 3 conjI [OF 4
          conjI [OF 5 conjI [OF 6 7]]]]]]]])
qed

section \<open>The errors that end a run\<close>

text \<open>
  A run ends with an error only through a missing dictionary key, a payload that is not
  ASCII, a failure of one of the libraries on an image, or a failing write: the page
  index never leaves the document, and the label and secondary id are bound whenever
  they are read.
\<close>

lemma classify_error:
  "classify lib b pg = Inl e \<Longrightarrow>
   e = KeyError \<or> e = UnicodeDecodeError \<or> e = NotImplementedError \<or> e = UnidentifiedImageError"
proof (cases "xobjects pg")
  case None
  then show "classify lib b pg = Inl e \<Longrightarrow> ?thesis" by (simp add: classify_def)
next
  case (Some xObject)
  assume c: "classify lib b pg = Inl e"
  show ?thesis
  proof (cases "image_loop lib b (map snd xObject) (False, None, None)")
    case (Inl e')
    with c Some have "e' = e" by (simp add: classify_def)
    with image_loop_error [OF Inl] show ?thesis by simp
  next
    case (Inr t)
    obtain sp ns nr where t: "t = (sp, ns, nr)" by (cases t)
    from image_loop_shape [OF Inr [unfolded t]] c Some Inr t show ?thesis
      by (auto simp add: classify_def split: if_splits)
  qed
qed

lemma page_step_Inl:
  assumes "page_step lib a self c s = Inl e"
  shows "e = KeyError \<or> e = UnicodeDecodeError \<or> e = NotImplementedError
     \<or> e = UnidentifiedImageError \<or> e = AttributeError"
proof (cases "classify lib (self_brightness self) (input_pdf self ! c)")
  case (Inl e')
  with assms have "e' = e" by (simp add: page_step_classify)
  with classify_error [OF Inl] show ?thesis by auto
next
  case (Inr m)
  show ?thesis
  proof (cases m)
    case None
    with assms Inr show ?thesis by (simp add: page_step_classify)
  next
    case (Some lr)
    obtain l r where "lr = (l, r)" by (cases lr)
    with assms Inr Some
    have "split_branch a self c (s\<lparr>new_sep := Some l, new_race := Some r\<rparr>) = Inl e"
      by (simp add: page_step_classify)
    from split_branch_Inl [OF this] show ?thesis by simp
  qed
qed

lemma while_loop_Inl_error:
  assumes "c \<le> length (input_pdf self)" and "while_loop lib a self c s = Inl e"
  shows "e = KeyError \<or> e = UnicodeDecodeError \<or> e = NotImplementedError
     \<or> e = UnidentifiedImageError \<or> e = AttributeError"
  using assms
proof (induction "length (input_pdf self) - c" arbitrary: c s)
  case 0
  then have "c = total_pages self" by (simp add: total_pages_def)
  with "0.prems"(2) show ?case by (simp add: while_loop_end)
next
  case (Suc k)
  then have lt: "c < length (input_pdf self)" by simp
  show ?case
  proof (cases "page_step lib a self c s")
    case (Inl e')
    with Suc.prems(2) lt have "e' = e" by (simp add: while_loop_Inl)
    with page_step_Inl [OF Inl] show ?thesis by simp
  next
    case (Inr s1)
    with Suc.prems(2) lt have "while_loop lib a self (Suc c) s1 = Inl e"
      by (simp add: while_loop_Inr)
    moreover have "k = length (input_pdf self) - Suc c" using Suc.hyps(2) by simp
    moreover have "Suc c \<le> length (input_pdf self)" using lt by simp
    ultimately show ?thesis by (intro Suc.hyps(1))
  qed
qed

lemma split_qr_error:
  assumes "split_qr lib a self split_text ifiles = Inl e"
  shows "e = KeyError \<or> e = UnicodeDecodeError \<or> e = NotImplementedError
     \<or> e = UnidentifiedImageError \<or> e = AttributeError"
proof (cases "while_loop lib a self 0 init_state")
  case (Inl e')
  with assms have "e' = e" by (simp add: split_qr_def)
  with while_loop_Inl_error [OF _ Inl] show ?thesis by simp
next
  case (Inr s1)
  with assms have "finish self s1 = Inl e" by (simp add: split_qr_def)
  then have "e = AttributeError"
    by (auto simp add: finish_def flush_def split: sum.splits if_splits)
  then show ?thesis by simp
qed

end
